theory Spec2Isabelle
  imports Main
begin

section \<open>The data store: a line-oriented record store over TCP\<close>

text \<open>
  The development follows the source of the data store, the TCP server on port 8004: the
  statement parser \<^verbatim>\<open>sqlParser\<close>, the table store \<^verbatim>\<open>loadData\<close> / \<^verbatim>\<open>saveData\<close> and
  the handler of the socket's \<^verbatim>\<open>data\<close> event. What the source takes from the language
  and from Node (\<^verbatim>\<open>trim\<close>, \<^verbatim>\<open>split\<close>, regular expressions, \<^verbatim>\<open>JSON\<close>, \<^verbatim>\<open>fs\<close>) is
  modelled after its specification.
\<close>

subsection \<open>JavaScript strings\<close>

text \<open>
  A JavaScript string is a sequence of UTF-16 code units; a code unit is modelled as a
  natural number. \<open>js\<close> turns an ASCII literal into such a string.
\<close>

type_synonym jstring = "nat list"

definition js :: "string \<Rightarrow> jstring" where
  "js s = map of_char s"

text \<open>
  \<^verbatim>\<open>String.prototype.trim\<close> removes white space and line terminators from both ends:
  TAB, LF, VT, FF, CR, SP, NBSP, U+1680, U+2000 to U+200A, U+2028, U+2029, U+202F, U+205F,
  U+3000 and U+FEFF.
\<close>

definition is_space :: "nat \<Rightarrow> bool" where
  "is_space c \<longleftrightarrow>
     c \<in> {9, 10, 11, 12, 13, 32, 160, 5760, 8232, 8233, 8239, 8287, 12288, 65279}
     \<or> (8192 \<le> c \<and> c \<le> 8202)"

definition trim :: "jstring \<Rightarrow> jstring" where
  "trim s = rev (dropWhile is_space (rev (dropWhile is_space s)))"

text \<open>\<^verbatim>\<open>String.prototype.split\<close> on a one-character separator.\<close>

fun split :: "nat \<Rightarrow> jstring \<Rightarrow> jstring list" where
  "split sep [] = [[]]"
| "split sep (c # cs) =
     (if c = sep then [] # split sep cs
      else (case split sep cs of
              [] \<Rightarrow> [[c]]
            | w # ws \<Rightarrow> (c # w) # ws))"

text \<open>
  Numbers. A number of the source is an IEEE double; the model has the integers among
  them, as values of type \<open>int\<close>. \<open>to_double\<close> is the double nearest to an integer, the
  even one of two that are equally near: an integer of magnitude up to \<open>2^53\<close> is a
  double, a greater one is rounded to 53 significant bits. An integer that rounds to
  \<open>2^1024\<close> or more is \<^verbatim>\<open>Infinity\<close> in the source, which the model does not have:
  the theorems that depend on it bound their numbers.
\<close>

fun bit_length :: "nat \<Rightarrow> nat" where
  "bit_length n = (if n = 0 then 0 else Suc (bit_length (n div 2)))"

declare bit_length.simps [simp del]

definition round_to_53 :: "nat \<Rightarrow> nat" where
  "round_to_53 a =
     (if a \<le> 2 ^ 53 then a
      else (let e = bit_length a - 53;
                q = a div 2 ^ e;
                r = a mod 2 ^ e;
                h = 2 ^ (e - 1)
            in (if h < r \<or> (r = h \<and> odd q) then q + 1 else q) * 2 ^ e))"

definition to_double :: "int \<Rightarrow> int" where
  "to_double n = (if n < 0 then - int (round_to_53 (nat (- n))) else int (round_to_53 (nat n)))"

text \<open>
  The integer a string of decimal digits denotes, and \<^verbatim>\<open>parseInt\<close> on such a string
  (the only strings the parser passes to it): the double nearest to that integer.
\<close>

definition decimal :: "jstring \<Rightarrow> int" where
  "decimal ds = foldl (\<lambda>a c. 10 * a + (int c - 48)) 0 ds"

definition parseInt :: "jstring \<Rightarrow> int" where
  "parseInt ds = to_double (decimal ds)"

subsection \<open>The three regular expressions\<close>

text \<open>
  The character classes \<^verbatim>\<open>\w\<close> and \<^verbatim>\<open>\d\<close>, and the canonical form under which the
  flag \<^verbatim>\<open>i\<close> compares a character of the input with an ASCII character of the pattern:
  without the flag \<^verbatim>\<open>u\<close> a character outside ASCII is never equal to an ASCII one, so
  only the letters a to z are folded.
\<close>

definition is_word :: "nat \<Rightarrow> bool" where
  "is_word c \<longleftrightarrow> (48 \<le> c \<and> c \<le> 57) \<or> (65 \<le> c \<and> c \<le> 90) \<or> c = 95 \<or> (97 \<le> c \<and> c \<le> 122)"

definition is_digit :: "nat \<Rightarrow> bool" where
  "is_digit c \<longleftrightarrow> 48 \<le> c \<and> c \<le> 57"

definition canon :: "nat \<Rightarrow> nat" where
  "canon c = (if 97 \<le> c \<and> c \<le> 122 then c - 32 else c)"

text \<open>
  \<open>match_ci p s\<close> matches the literal text \<open>p\<close> of a pattern at the start of \<open>s\<close>,
  ignoring case, and returns what follows it.
\<close>

fun match_ci :: "string \<Rightarrow> jstring \<Rightarrow> jstring option" where
  "match_ci [] s = Some s"
| "match_ci (p # ps) [] = None"
| "match_ci (p # ps) (c # cs) =
     (if canon c = canon (of_char p) then match_ci ps cs else None)"

text \<open>
  \<^verbatim>\<open>/^SELECT \* FROM (\w+)$/i\<close>. The result is the capture group.
\<close>

definition selectAllRegex :: "jstring \<Rightarrow> jstring option" where
  "selectAllRegex sql =
     (case match_ci ''SELECT * FROM '' sql of
        None \<Rightarrow> None
      | Some r \<Rightarrow> if r \<noteq> [] \<and> list_all is_word r then Some r else None)"

text \<open>
  \<^verbatim>\<open>/^SELECT \* FROM (\w+) WHERE id = (\d+)$/i\<close>. The group \<^verbatim>\<open>\w+\<close> is followed by a
  space, which is no word character, so it can only be the longest run of word
  characters.
\<close>

definition selectWhereRegex :: "jstring \<Rightarrow> (jstring \<times> jstring) option" where
  "selectWhereRegex sql =
     (case match_ci ''SELECT * FROM '' sql of
        None \<Rightarrow> None
      | Some r \<Rightarrow>
          (let t = takeWhile is_word r in
           if t = [] then None
           else (case match_ci '' WHERE id = '' (dropWhile is_word r) of
                   None \<Rightarrow> None
                 | Some d \<Rightarrow> if d \<noteq> [] \<and> list_all is_digit d then Some (t, d) else None)))"

text \<open>
  \<^verbatim>\<open>/^INSERT INTO (\w+) \(([^)]+)\) VALUES \(([^)]+)\)$/i\<close>. Each group \<^verbatim>\<open>[^)]+\<close> is
  followed by a closing parenthesis, so it can only be the longest run without one.
\<close>

definition not_rparen :: "nat \<Rightarrow> bool" where
  "not_rparen c \<longleftrightarrow> c \<noteq> 41"

definition insertRegex :: "jstring \<Rightarrow> (jstring \<times> jstring \<times> jstring) option" where
  "insertRegex sql =
     (case match_ci ''INSERT INTO '' sql of
        None \<Rightarrow> None
      | Some r \<Rightarrow>
          (let t = takeWhile is_word r in
           if t = [] then None
           else (case match_ci '' ('' (dropWhile is_word r) of
                   None \<Rightarrow> None
                 | Some r2 \<Rightarrow>
                     (let cols = takeWhile not_rparen r2 in
                      if cols = [] then None
                      else (case match_ci '') VALUES ('' (dropWhile not_rparen r2) of
                              None \<Rightarrow> None
                            | Some r3 \<Rightarrow>
                                (let vals = takeWhile not_rparen r3 in
                                 if vals \<noteq> [] \<and> dropWhile not_rparen r3 = [41]
                                 then Some (t, cols, vals) else None))))))"

subsection \<open>The parser\<close>

text \<open>
  The object \<^verbatim>\<open>sqlParser\<close> returns: \<^verbatim>\<open>{command: "SELECT", table, columns: "*", where}\<close>
  with \<^verbatim>\<open>where\<close> either \<^verbatim>\<open>null\<close> or \<^verbatim>\<open>{id}\<close>, or \<^verbatim>\<open>{command: "INSERT", table, data}\<close>
  with \<^verbatim>\<open>data\<close> the bag of the columns' values. An \<^verbatim>\<open>Error\<close> thrown is \<open>Inl\<close> of its
  message.
\<close>

datatype command =
    SELECT jstring "int option"
  | INSERT jstring "jstring \<rightharpoonup> jstring"

definition count_mismatch :: jstring where
  "count_mismatch = js ''Column and value count mismatch in INSERT statement''"

definition unsupported_format :: jstring where
  "unsupported_format = js ''Unsupported SQL command format''"

text \<open>
  \<^verbatim>\<open>columns.forEach((col, index) => { data[col] = values[index]; })\<close> on the plain
  object \<^verbatim>\<open>data\<close>: a later column of the same name overwrites an earlier one, and
  the assignment to the column \<^verbatim>\<open>__proto__\<close> stores nothing (it calls the setter of
  \<^verbatim>\<open>Object.prototype\<close>, which ignores a string). The map holds the own properties of
  the object; the handler reads \<^verbatim>\<open>name\<close> and \<^verbatim>\<open>description\<close>, which no prototype
  provides.
\<close>

definition fill_data :: "jstring list \<Rightarrow> jstring list \<Rightarrow> (jstring \<rightharpoonup> jstring)" where
  "fill_data columns vals =
     foldl (\<lambda>data (col, v). if col = js ''__proto__'' then data else data(col \<mapsto> v))
       Map.empty (zip columns vals)"

definition sqlParser :: "jstring \<Rightarrow> jstring + command" where
  "sqlParser sql0 =
     (let sql = trim sql0 in
      case selectAllRegex sql of
        Some table \<Rightarrow> Inr (SELECT table None)
      | None \<Rightarrow>
          (case selectWhereRegex sql of
             Some (table, d) \<Rightarrow> Inr (SELECT table (Some (parseInt d)))
           | None \<Rightarrow>
               (case insertRegex sql of
                  Some (table, cs, vs) \<Rightarrow>
                    (let columns = map trim (split 44 cs);
                         vals = map trim (split 44 vs)
                     in if length columns \<noteq> length vals then Inl count_mismatch
                        else Inr (INSERT table (fill_data columns vals)))
                | None \<Rightarrow> Inl unsupported_format)))"

subsection \<open>The grammar of the statements\<close>

text \<open>
  The three shapes of a statement, as the grammar writes them: keywords in any case,
  \<open>table\<close> a word of letters, digits and underscores, an integer a run of digits, and a
  list any text without a closing parenthesis.
\<close>

definition ci_equal :: "string \<Rightarrow> jstring \<Rightarrow> bool" where
  "ci_equal kw s \<longleftrightarrow> map canon s = map canon (js kw)"

definition word_token :: "jstring \<Rightarrow> bool" where
  "word_token t \<longleftrightarrow> t \<noteq> [] \<and> list_all is_word t"

definition shape_select_all :: "jstring \<Rightarrow> jstring \<Rightarrow> bool" where
  "shape_select_all s t \<longleftrightarrow>
     (\<exists>k. s = k @ t \<and> ci_equal ''SELECT * FROM '' k \<and> word_token t)"

definition shape_select_where :: "jstring \<Rightarrow> jstring \<Rightarrow> jstring \<Rightarrow> bool" where
  "shape_select_where s t d \<longleftrightarrow>
     (\<exists>k w. s = k @ t @ w @ d \<and> ci_equal ''SELECT * FROM '' k \<and> word_token t
        \<and> ci_equal '' WHERE id = '' w \<and> d \<noteq> [] \<and> list_all is_digit d)"

definition shape_insert :: "jstring \<Rightarrow> jstring \<Rightarrow> jstring \<Rightarrow> jstring \<Rightarrow> bool" where
  "shape_insert s t cs vs \<longleftrightarrow>
     (\<exists>k v. s = k @ t @ js '' ('' @ cs @ v @ vs @ js '')''
        \<and> ci_equal ''INSERT INTO '' k \<and> word_token t
        \<and> cs \<noteq> [] \<and> list_all not_rparen cs
        \<and> ci_equal '') VALUES ('' v
        \<and> vs \<noteq> [] \<and> list_all not_rparen vs)"

section \<open>The table store\<close>

subsection \<open>JSON values and \<^verbatim>\<open>JSON.parse\<close>\<close>

text \<open>
  The value \<^verbatim>\<open>JSON.parse\<close> returns. A number written as an integer is \<open>JNum\<close> of its
  value (the integers in a file are taken to be doubles, as those are that the server
  writes); a number with a fraction or an exponent is kept as its text (\<open>JReal\<close>): no record
  the server writes has one. The keys of an object are in the order of the text.
\<close>

datatype json =
    JNull
  | JBool bool
  | JNum int
  | JReal jstring
  | JStr jstring
  | JArr "json list"
  | JObj "(jstring \<times> json) list"

definition is_json_ws :: "nat \<Rightarrow> bool" where
  "is_json_ws c \<longleftrightarrow> c = 32 \<or> c = 9 \<or> c = 10 \<or> c = 13"

definition skip_ws :: "jstring \<Rightarrow> jstring" where
  "skip_ws s = dropWhile is_json_ws s"

definition hex_value :: "nat \<Rightarrow> nat option" where
  "hex_value c =
     (if 48 \<le> c \<and> c \<le> 57 then Some (c - 48)
      else if 97 \<le> c \<and> c \<le> 102 then Some (c - 87)
      else if 65 \<le> c \<and> c \<le> 70 then Some (c - 55)
      else None)"

definition hex4 :: "nat \<Rightarrow> nat \<Rightarrow> nat \<Rightarrow> nat \<Rightarrow> nat option" where
  "hex4 a b c d =
     (case (hex_value a, hex_value b, hex_value c, hex_value d) of
        (Some w, Some x, Some y, Some z) \<Rightarrow> Some (4096 * w + 256 * x + 16 * y + z)
      | _ \<Rightarrow> None)"

text \<open>The character after a backslash: \<^verbatim>\<open>" \ / b f n r t\<close>.\<close>

definition unescape :: "nat \<Rightarrow> nat option" where
  "unescape e =
     (if e = 34 then Some 34 else if e = 92 then Some 92 else if e = 47 then Some 47
      else if e = 98 then Some 8 else if e = 102 then Some 12 else if e = 110 then Some 10
      else if e = 114 then Some 13 else if e = 116 then Some 9 else None)"

definition cons_fst :: "'a \<Rightarrow> ('a list \<times> 'b) option \<Rightarrow> ('a list \<times> 'b) option" where
  "cons_fst c r = map_option (\<lambda>(s, rest). (c # s, rest)) r"

text \<open>
  The characters of a string after its opening quote, up to the closing quote: the string
  and the text after it. A control character is not allowed unescaped.
\<close>

fun parse_chars :: "jstring \<Rightarrow> (jstring \<times> jstring) option" where
  "parse_chars [] = None"
| "parse_chars (c # cs) =
     (if c = 34 then Some ([], cs)
      else if c = 92 then
        (case cs of
           [] \<Rightarrow> None
         | e # es \<Rightarrow>
             if e = 117 then
               (case es of
                  h1 # h2 # h3 # h4 # r \<Rightarrow>
                    (case hex4 h1 h2 h3 h4 of
                       None \<Rightarrow> None
                     | Some u \<Rightarrow> cons_fst u (parse_chars r))
                | _ \<Rightarrow> None)
             else
               (case unescape e of
                  None \<Rightarrow> None
                | Some u \<Rightarrow> cons_fst u (parse_chars es)))
      else if c < 32 then None
      else cons_fst c (parse_chars cs))"

text \<open>
  A number: an optional minus sign, the digits of the integer part (no leading zero),
  an optional fraction and an optional exponent.
\<close>

definition parse_frac :: "jstring \<Rightarrow> (bool \<times> jstring) option" where
  "parse_frac s =
     (case s of
        [] \<Rightarrow> Some (False, s)
      | c # r \<Rightarrow>
          if c = 46 then
            (if takeWhile is_digit r = [] then None else Some (True, dropWhile is_digit r))
          else Some (False, s))"

definition skip_sign :: "jstring \<Rightarrow> jstring" where
  "skip_sign s = (case s of [] \<Rightarrow> s | c # r \<Rightarrow> if c = 43 \<or> c = 45 then r else s)"

definition parse_exp :: "jstring \<Rightarrow> (bool \<times> jstring) option" where
  "parse_exp s =
     (case s of
        [] \<Rightarrow> Some (False, s)
      | c # r \<Rightarrow>
          if c = 101 \<or> c = 69 then
            (if takeWhile is_digit (skip_sign r) = [] then None
             else Some (True, dropWhile is_digit (skip_sign r)))
          else Some (False, s))"

definition parse_number :: "jstring \<Rightarrow> (json \<times> jstring) option" where
  "parse_number s =
     (let neg = (s \<noteq> [] \<and> hd s = 45);
          s1 = (if neg then tl s else s);
          ds = takeWhile is_digit s1
      in if ds = [] \<or> (hd ds = 48 \<and> 1 < length ds) then None
         else (case parse_frac (dropWhile is_digit s1) of
                 None \<Rightarrow> None
               | Some (fr, r2) \<Rightarrow>
                   (case parse_exp r2 of
                      None \<Rightarrow> None
                    | Some (ex, r3) \<Rightarrow>
                        Some (if fr \<or> ex then JReal (take (length s - length r3) s)
                              else JNum (if neg then - decimal ds else decimal ds),
                              r3))))"

fun strip_prefix :: "jstring \<Rightarrow> jstring \<Rightarrow> jstring option" where
  "strip_prefix [] s = Some s"
| "strip_prefix (p # ps) [] = None"
| "strip_prefix (p # ps) (c # cs) = (if c = p then strip_prefix ps cs else None)"

definition parse_atom :: "jstring \<Rightarrow> (json \<times> jstring) option" where
  "parse_atom s =
     (case strip_prefix (js ''true'') s of
        Some r \<Rightarrow> Some (JBool True, r)
      | None \<Rightarrow>
          (case strip_prefix (js ''false'') s of
             Some r \<Rightarrow> Some (JBool False, r)
           | None \<Rightarrow>
               (case strip_prefix (js ''null'') s of
                  Some r \<Rightarrow> Some (JNull, r)
                | None \<Rightarrow> parse_number s)))"

lemma skip_ws_length: "length (skip_ws s) \<le> length s"
  by (simp add: skip_ws_def length_dropWhile_le)

lemma skip_ws_less: "length s < n \<Longrightarrow> length (skip_ws s) < n"
  using skip_ws_length [of s] by simp

lemma skip_ws_Cons_less: "skip_ws s = d # ds \<Longrightarrow> length ds < length s"
  using skip_ws_length [of s] by simp

text \<open>
  A value, the elements of an array after its opening bracket and the members of an object
  after its opening brace, each with the text that follows. The comparisons of lengths
  only serve the proof of termination: \<open>parse_elements_unguarded\<close> and
  \<open>parse_members_unguarded\<close> below show that they always hold.
\<close>

function parse_value :: "jstring \<Rightarrow> (json \<times> jstring) option"
  and parse_elements :: "jstring \<Rightarrow> (json list \<times> jstring) option"
  and parse_members :: "jstring \<Rightarrow> ((jstring \<times> json) list \<times> jstring) option"
where
  "parse_value s =
     (case s of
        [] \<Rightarrow> None
      | c # cs \<Rightarrow>
          if c = 34 then map_option (\<lambda>(a, r). (JStr a, r)) (parse_chars cs)
          else if c = 91 then
            (case skip_ws cs of
               [] \<Rightarrow> None
             | d # ds \<Rightarrow>
                 if d = 93 then Some (JArr [], ds)
                 else map_option (\<lambda>(vs, r). (JArr vs, r)) (parse_elements (d # ds)))
          else if c = 123 then
            (case skip_ws cs of
               [] \<Rightarrow> None
             | d # ds \<Rightarrow>
                 if d = 125 then Some (JObj [], ds)
                 else map_option (\<lambda>(ms, r). (JObj ms, r)) (parse_members (d # ds)))
          else parse_atom s)"
| "parse_elements s =
     (case parse_value s of
        None \<Rightarrow> None
      | Some (v, r) \<Rightarrow>
          (case skip_ws r of
             [] \<Rightarrow> None
           | d # ds \<Rightarrow>
               if d = 93 then Some ([v], ds)
               else if d = 44 \<and> length ds < length s then cons_fst v (parse_elements (skip_ws ds))
               else None))"
| "parse_members s =
     (case s of
        [] \<Rightarrow> None
      | q # cs \<Rightarrow>
          if q \<noteq> 34 then None
          else (case parse_chars cs of
                  None \<Rightarrow> None
                | Some (k, r0) \<Rightarrow>
                    (case skip_ws r0 of
                       [] \<Rightarrow> None
                     | e # es \<Rightarrow>
                         if e \<noteq> 58 \<or> \<not> length es < length s then None
                         else (case parse_value (skip_ws es) of
                                 None \<Rightarrow> None
                               | Some (v, r) \<Rightarrow>
                                   (case skip_ws r of
                                      [] \<Rightarrow> None
                                    | d # ds \<Rightarrow>
                                        if d = 125 then Some ([(k, v)], ds)
                                        else if d = 44 \<and> length ds < length s
                                        then cons_fst (k, v) (parse_members (skip_ws ds))
                                        else None)))))"
  by pat_completeness auto
termination
  apply (relation "inv_image (less_than <*lex*> less_than) (\<lambda>x. case x of
           Inl s \<Rightarrow> (length s, 0::nat)
         | Inr (Inl s) \<Rightarrow> (length s, 1)
         | Inr (Inr s) \<Rightarrow> (length s, 1))")
  apply (auto dest!: skip_ws_Cons_less intro: skip_ws_less)
  done

declare parse_value.simps [simp del] parse_elements.simps [simp del]
  parse_members.simps [simp del]

text \<open>\<^verbatim>\<open>JSON.parse\<close>: one value between white space; \<open>None\<close> is its \<^verbatim>\<open>SyntaxError\<close>.\<close>

definition JSON_parse :: "jstring \<Rightarrow> json option" where
  "JSON_parse text =
     (case parse_value (skip_ws text) of
        None \<Rightarrow> None
      | Some (v, r) \<Rightarrow> if skip_ws r = [] then Some v else None)"

subsection \<open>Records and \<^verbatim>\<open>JSON.stringify\<close>\<close>

text \<open>
  \<^verbatim>\<open>type Data = { id: number; name: string; description: string }\<close>. The handler builds
  a record from \<^verbatim>\<open>parsedCommand.data.name\<close> and \<^verbatim>\<open>parsedCommand.data.description\<close>,
  which are \<^verbatim>\<open>undefined\<close> for a column the statement does not name: \<open>None\<close>.
\<close>

record Data =
  id' :: int
  name :: "jstring option"
  description :: "jstring option"

text \<open>
  \<^verbatim>\<open>QuoteJSONString\<close>: the short escapes, \<^verbatim>\<open>\uXXXX\<close> in lower case for the other
  control characters and for a surrogate that is not part of a pair, every other code unit
  as it is.
\<close>

definition hex_digit :: "nat \<Rightarrow> nat" where
  "hex_digit d = (if d < 10 then 48 + d else 87 + d)"

definition unicode_escape :: "nat \<Rightarrow> jstring" where
  "unicode_escape c =
     [92, 117, hex_digit (c div 4096 mod 16), hex_digit (c div 256 mod 16),
      hex_digit (c div 16 mod 16), hex_digit (c mod 16)]"

definition is_high_surrogate :: "nat \<Rightarrow> bool" where
  "is_high_surrogate c \<longleftrightarrow> 55296 \<le> c \<and> c \<le> 56319"

definition is_low_surrogate :: "nat \<Rightarrow> bool" where
  "is_low_surrogate c \<longleftrightarrow> 56320 \<le> c \<and> c \<le> 57343"

fun quote_chars :: "jstring \<Rightarrow> jstring" where
  "quote_chars [] = []"
| "quote_chars (c # cs) =
     (if c = 8 then [92, 98] @ quote_chars cs
      else if c = 9 then [92, 116] @ quote_chars cs
      else if c = 10 then [92, 110] @ quote_chars cs
      else if c = 12 then [92, 102] @ quote_chars cs
      else if c = 13 then [92, 114] @ quote_chars cs
      else if c = 34 then [92, 34] @ quote_chars cs
      else if c = 92 then [92, 92] @ quote_chars cs
      else if c < 32 then unicode_escape c @ quote_chars cs
      else if is_high_surrogate c then
        (case cs of
           [] \<Rightarrow> unicode_escape c
         | d # ds \<Rightarrow>
             if is_low_surrogate d then c # d # quote_chars ds
             else unicode_escape c @ quote_chars cs)
      else if is_low_surrogate c then unicode_escape c @ quote_chars cs
      else c # quote_chars cs)"

definition QuoteJSONString :: "jstring \<Rightarrow> jstring" where
  "QuoteJSONString s = [34] @ quote_chars s @ [34]"

text \<open>The decimal digits of an integer, as \<^verbatim>\<open>Number.prototype.toString\<close> writes it.\<close>

fun nat_digits :: "nat \<Rightarrow> jstring" where
  "nat_digits n = (if n < 10 then [48 + n] else nat_digits (n div 10) @ [48 + n mod 10])"

declare nat_digits.simps [simp del]

definition int_string :: "int \<Rightarrow> jstring" where
  "int_string i = (if i < 0 then 45 # nat_digits (nat (- i)) else nat_digits (nat i))"

fun join :: "jstring \<Rightarrow> jstring list \<Rightarrow> jstring" where
  "join sep [] = []"
| "join sep [x] = x"
| "join sep (x # y # ys) = x @ sep @ join sep (y # ys)"

text \<open>
  \<^verbatim>\<open>JSON.stringify(data, null, 2)\<close> on an array of records: every record on lines of
  its own, indented by two spaces, every property on a line of its own, indented by four;
  a property whose value is \<^verbatim>\<open>undefined\<close> is left out.
\<close>

definition properties :: "Data \<Rightarrow> (string \<times> jstring) list" where
  "properties r =
     [(''id'', int_string (id' r))]
     @ (case name r of None \<Rightarrow> [] | Some a \<Rightarrow> [(''name'', QuoteJSONString a)])
     @ (case description r of None \<Rightarrow> [] | Some b \<Rightarrow> [(''description'', QuoteJSONString b)])"

definition member_line :: "string \<times> jstring \<Rightarrow> jstring" where
  "member_line p = js ''    '' @ QuoteJSONString (js (fst p)) @ js '': '' @ snd p"

definition stringify_Data :: "Data \<Rightarrow> jstring" where
  "stringify_Data r =
     js ''{'' @ [10] @ join (js '','' @ [10]) (map member_line (properties r)) @ [10] @ js ''  }''"

definition JSON_stringify :: "Data list \<Rightarrow> jstring" where
  "JSON_stringify data =
     (if data = [] then js ''[]''
      else js ''['' @ [10]
           @ join (js '','' @ [10]) (map (\<lambda>r. js ''  '' @ stringify_Data r) data)
           @ [10] @ js '']'')"

text \<open>
  \<^verbatim>\<open>JSON.parse(data) as Data[]\<close>: the cast is not checked. \<open>as_records\<close> is the parsed
  value seen at the type the cast claims: \<open>Some\<close> of the records when the value is an array
  of objects with the properties \<^verbatim>\<open>id\<close> (an integer), \<^verbatim>\<open>name\<close> and \<^verbatim>\<open>description\<close>
  (strings, each present or not) in this order and no other, and \<open>None\<close> for any other
  value, on which the model does not follow the handler.
\<close>

definition to_json :: "Data \<Rightarrow> json" where
  "to_json r =
     JObj ([(js ''id'', JNum (id' r))]
           @ (case name r of None \<Rightarrow> [] | Some a \<Rightarrow> [(js ''name'', JStr a)])
           @ (case description r of None \<Rightarrow> [] | Some b \<Rightarrow> [(js ''description'', JStr b)]))"

definition str_field :: "string \<Rightarrow> (jstring \<times> json) list \<Rightarrow> jstring option" where
  "str_field key ms = (case map_of ms (js key) of Some (JStr a) \<Rightarrow> Some a | _ \<Rightarrow> None)"

definition num_field :: "string \<Rightarrow> (jstring \<times> json) list \<Rightarrow> int" where
  "num_field key ms = (case map_of ms (js key) of Some (JNum n) \<Rightarrow> n | _ \<Rightarrow> 0)"

definition as_Data :: "json \<Rightarrow> Data option" where
  "as_Data j =
     (case j of
        JObj ms \<Rightarrow>
          (let r = \<lparr>id' = num_field ''id'' ms, name = str_field ''name'' ms,
                     description = str_field ''description'' ms\<rparr>
           in if to_json r = j then Some r else None)
      | _ \<Rightarrow> None)"

definition as_records :: "json \<Rightarrow> Data list option" where
  "as_records j = (case j of JArr vs \<Rightarrow> those (map as_Data vs) | _ \<Rightarrow> None)"

subsection \<open>The files\<close>

text \<open>
  The part of the file system the server touches: the text of every file that exists
  (read and written as UTF-8), and the paths on which \<^verbatim>\<open>fs.readFile\<close> and
  \<^verbatim>\<open>fs.writeFile\<close> are refused. A refused write leaves the file as it was.
\<close>

datatype io_error = ENOENT | EACCES

record fsys =
  files :: "jstring \<rightharpoonup> jstring"
  read_denied :: "jstring \<Rightarrow> bool"
  write_denied :: "jstring \<Rightarrow> bool"

definition readFile :: "fsys \<Rightarrow> jstring \<Rightarrow> io_error + jstring" where
  "readFile fs p =
     (if read_denied fs p then Inl EACCES
      else (case files fs p of None \<Rightarrow> Inl ENOENT | Some text \<Rightarrow> Inr text))"

definition writeFile :: "fsys \<Rightarrow> jstring \<Rightarrow> jstring \<Rightarrow> io_error + fsys" where
  "writeFile fs p text =
     (if write_denied fs p then Inl EACCES
      else Inr (fs\<lparr>files := (files fs)(p \<mapsto> text)\<rparr>))"

text \<open>
  \<^verbatim>\<open>path.join(__dirname, '..', `data/${table}.txt`)\<close>, relative to the directory of the
  package. The table names that reach the store are words (\<^verbatim>\<open>\w+\<close>), on which
  \<^verbatim>\<open>path.join\<close> only concatenates.
\<close>

definition dataFilePath :: "jstring \<Rightarrow> jstring" where
  "dataFilePath table = js ''data/'' @ table @ js ''.txt''"

text \<open>
  \<^verbatim>\<open>loadData\<close>: whatever is thrown, by the read or by \<^verbatim>\<open>JSON.parse\<close>, is logged and
  the empty array is returned.
\<close>

definition loadData :: "fsys \<Rightarrow> jstring \<Rightarrow> json" where
  "loadData fs table =
     (case readFile fs (dataFilePath table) of
        Inl error \<Rightarrow> JArr []
      | Inr data \<Rightarrow> (case JSON_parse data of None \<Rightarrow> JArr [] | Some v \<Rightarrow> v))"

text \<open>\<^verbatim>\<open>saveData\<close>: an error of the write is logged, and nothing is thrown.\<close>

definition saveData :: "fsys \<Rightarrow> Data list \<Rightarrow> jstring \<Rightarrow> fsys" where
  "saveData fs data table =
     (case writeFile fs (dataFilePath table) (JSON_stringify data) of
        Inl error \<Rightarrow> fs
      | Inr fs' \<Rightarrow> fs')"

section \<open>The handler of a received chunk\<close>

text \<open>
  What the handler writes to the socket: \<^verbatim>\<open>JSON.stringify(data)\<close> or
  \<^verbatim>\<open>JSON.stringify([datum])\<close> (\<open>Rows\<close>), \<^verbatim>\<open>JSON.stringify({ success: true, newData })\<close>
  (\<open>Success\<close>) or \<^verbatim>\<open>JSON.stringify({ error: message })\<close> (\<open>Error\<close>).
\<close>

datatype response = Rows "Data list" | Success Data | Error jstring

text \<open>
  \<^verbatim>\<open>data.length > 0 ? Math.max(...data.map(s => s.id)) + 1 : 1\<close>, when the engine
  accepts the call of \<^verbatim>\<open>Math.max\<close> (see \<open>execute_on\<close> for when it does not): the
  greatest id is exact, the sum is rounded to a double. Then
  \<^verbatim>\<open>{ id: newId, name: parsedCommand.data.name, description: parsedCommand.data.description }\<close>.
\<close>

definition newId :: "Data list \<Rightarrow> int" where
  "newId data = (if 0 < length data then to_double (Max (set (map id' data)) + 1) else 1)"

definition newData :: "Data list \<Rightarrow> (jstring \<rightharpoonup> jstring) \<Rightarrow> Data" where
  "newData data d =
     \<lparr>id' = newId data, name = d (js ''name''), description = d (js ''description'')\<rparr>"

text \<open>
  The body of the handler after parsing, run without interruption, on an engine that
  accepts the call of \<^verbatim>\<open>Math.max\<close>. The result is \<open>None\<close> when the loaded value is not
  an array of records (see \<open>as_records\<close>).
\<close>

definition execute :: "fsys \<Rightarrow> command \<Rightarrow> (fsys \<times> response) option" where
  "execute fs parsedCommand =
     (case parsedCommand of
        SELECT table wh \<Rightarrow>
          (case as_records (loadData fs table) of
             None \<Rightarrow> None
           | Some data \<Rightarrow>
               (case wh of
                  Some k \<Rightarrow>
                    (case find (\<lambda>s. id' s = k) data of
                       Some datum \<Rightarrow> Some (fs, Rows [datum])
                     | None \<Rightarrow> Some (fs, Error (js ''Data not found'')))
                | None \<Rightarrow> Some (fs, Rows data)))
      | INSERT table d \<Rightarrow>
          (case as_records (loadData fs table) of
             None \<Rightarrow> None
           | Some data \<Rightarrow>
               (let nd = newData data d
                in Some (saveData fs (data @ [nd]) table, Success nd))))"

text \<open>
  The handler of the socket's \<^verbatim>\<open>data\<close> event, on the text of the chunk
  (\<^verbatim>\<open>data.toString()\<close>): an error thrown by the parser is answered with
  \<^verbatim>\<open>Invalid SQL command\<close>. The last branch of the source, \<^verbatim>\<open>Unsupported command\<close>,
  is never reached: the parser returns a \<^verbatim>\<open>SELECT\<close> or an \<^verbatim>\<open>INSERT\<close> with data.
\<close>

definition on_data :: "fsys \<Rightarrow> jstring \<Rightarrow> (fsys \<times> response) option" where
  "on_data fs chunk =
     (let command = trim chunk in
      case sqlParser command of
        Inl error \<Rightarrow> Some (fs, Error (js ''Invalid SQL command''))
      | Inr parsedCommand \<Rightarrow> execute fs parsedCommand)"

text \<open>
  The same on an engine that accepts at most \<open>args\<close> arguments in a call: with more records
  than that, \<^verbatim>\<open>Math.max(...data.map(s => s.id))\<close> throws a \<^verbatim>\<open>RangeError\<close>, which the
  handler catches and answers with \<^verbatim>\<open>Invalid SQL command\<close>, before anything is saved.
\<close>

definition execute_on :: "nat \<Rightarrow> fsys \<Rightarrow> command \<Rightarrow> (fsys \<times> response) option" where
  "execute_on args fs parsedCommand =
     (case parsedCommand of
        SELECT table wh \<Rightarrow> execute fs parsedCommand
      | INSERT table d \<Rightarrow>
          (case as_records (loadData fs table) of
             None \<Rightarrow> None
           | Some data \<Rightarrow>
               if args < length data then Some (fs, Error (js ''Invalid SQL command''))
               else execute fs parsedCommand))"

text \<open>The handler of the \<^verbatim>\<open>data\<close> event on such an engine.\<close>

definition on_data_on :: "nat \<Rightarrow> fsys \<Rightarrow> jstring \<Rightarrow> (fsys \<times> response) option" where
  "on_data_on args fs chunk =
     (let command = trim chunk in
      case sqlParser command of
        Inl error \<Rightarrow> Some (fs, Error (js ''Invalid SQL command''))
      | Inr parsedCommand \<Rightarrow> execute_on args fs parsedCommand)"

text \<open>Inserts into one table, executed one after another; the responses in order.\<close>

fun insert_all_on ::
  "nat \<Rightarrow> fsys \<Rightarrow> jstring \<Rightarrow> (jstring \<rightharpoonup> jstring) list \<Rightarrow> (fsys \<times> response list) option" where
  "insert_all_on args fs table [] = Some (fs, [])"
| "insert_all_on args fs table (d # ds) =
     (case execute_on args fs (INSERT table d) of
        None \<Rightarrow> None
      | Some (fs', r) \<Rightarrow>
          (case insert_all_on args fs' table ds of
             None \<Rightarrow> None
           | Some (fs'', rs) \<Rightarrow> Some (fs'', r # rs)))"

text \<open>
  What the file of a table holds, whether or not it can be read: no record when there is
  no file, the records of its text, and \<open>None\<close> when the text is not an array of records.
\<close>

definition durable_records :: "fsys \<Rightarrow> jstring \<Rightarrow> Data list option" where
  "durable_records fs table =
     (case files fs (dataFilePath table) of
        None \<Rightarrow> Some []
      | Some text \<Rightarrow> (case JSON_parse text of None \<Rightarrow> None | Some v \<Rightarrow> as_records v))"

subsection \<open>Handlers that run at the same time\<close>

text \<open>
  \<^verbatim>\<open>fs.writeFile\<close> opens the file for writing, which creates or truncates it, and then
  writes the text from the start of the file; each of the two is an operation of its own.
  Run one after the other they are the write of \<open>writeFile\<close> (\<open>writeFile_steps\<close> below).
  The length of a text is counted in code units, as the bytes of an ASCII text are.
\<close>

definition open_truncate :: "fsys \<Rightarrow> jstring \<Rightarrow> io_error + fsys" where
  "open_truncate fs p =
     (if write_denied fs p then Inl EACCES
      else Inr (fs\<lparr>files := (files fs)(p \<mapsto> [])\<rparr>))"

definition write_from_start :: "fsys \<Rightarrow> jstring \<Rightarrow> jstring \<Rightarrow> fsys" where
  "write_from_start fs p text =
     fs\<lparr>files := (files fs)(p \<mapsto>
        text @ drop (length text) (case files fs p of None \<Rightarrow> [] | Some old \<Rightarrow> old))\<rparr>"

text \<open>
  The handler is an \<^verbatim>\<open>async\<close> function: it gives up control at
  \<^verbatim>\<open>await loadData(...)\<close> and at \<^verbatim>\<open>await saveData(...)\<close>, and another handler can run
  in between. A handler is \<open>Received\<close> before its read, \<open>Opening\<close> between its read and
  the opening of the file (the text to write is computed when the read returns),
  \<open>Writing\<close> between the opening and the write, and \<open>Done\<close> with its response; it is
  \<open>Untyped\<close> when what it loaded is not an array of records. A step lets one handler run
  to its next operation on the file; the read is taken as one step. The engine accepts
  at most \<open>args\<close> arguments in a call, as in \<open>execute_on\<close>.
\<close>

datatype task =
    Received command
  | Opening jstring "Data list" Data
  | Writing jstring "Data list" Data
  | Done response
  | Untyped

fun step_task :: "nat \<Rightarrow> fsys \<Rightarrow> task \<Rightarrow> fsys \<times> task" where
  "step_task args fs (Received (SELECT table wh)) =
     (case execute fs (SELECT table wh) of
        None \<Rightarrow> (fs, Untyped)
      | Some (fs', r) \<Rightarrow> (fs', Done r))"
| "step_task args fs (Received (INSERT table d)) =
     (case as_records (loadData fs table) of
        None \<Rightarrow> (fs, Untyped)
      | Some data \<Rightarrow>
          if args < length data then (fs, Done (Error (js ''Invalid SQL command'')))
          else (fs, Opening table (data @ [newData data d]) (newData data d)))"
| "step_task args fs (Opening table data nd) =
     (case open_truncate fs (dataFilePath table) of
        Inl error \<Rightarrow> (fs, Done (Success nd))
      | Inr fs' \<Rightarrow> (fs', Writing table data nd))"
| "step_task args fs (Writing table data nd) =
     (write_from_start fs (dataFilePath table) (JSON_stringify data), Done (Success nd))"
| "step_task args fs (Done r) = (fs, Done r)"
| "step_task args fs Untyped = (fs, Untyped)"

definition step :: "nat \<Rightarrow> nat \<Rightarrow> fsys \<times> task list \<Rightarrow> fsys \<times> task list" where
  "step args i st =
     (case st of (fs, ts) \<Rightarrow>
        if i < length ts
        then (case step_task args fs (ts ! i) of (fs', t') \<Rightarrow> (fs', ts[i := t']))
        else (fs, ts))"

text \<open>A schedule names the handler that takes each step.\<close>

definition run :: "nat \<Rightarrow> nat list \<Rightarrow> fsys \<times> task list \<Rightarrow> fsys \<times> task list" where
  "run args schedule st = fold (step args) schedule st"

section \<open>Examples\<close>

text \<open>Concrete file systems, records and handlers, on which the theorems are instantiated.\<close>

definition no_files :: fsys where
  "no_files = \<lparr>files = Map.empty, read_denied = (\<lambda>p. False), write_denied = (\<lambda>p. False)\<rparr>"


definition fireball :: Data where
  "fireball = \<lparr>id' = 1, name = Some (js ''Fireball''), description = Some (js ''Deals damage'')\<rparr>"

definition frost :: Data where
  "frost = \<lparr>id' = 2, name = Some (js ''Frost''), description = None\<rparr>"

definition spells_disk :: fsys where
  "spells_disk = saveData no_files [fireball, frost] (js ''spells'')"

definition corrupt_disk :: fsys where
  "corrupt_disk = no_files\<lparr>files := [dataFilePath (js ''spells'') \<mapsto> js ''[{'']\<rparr>"

definition unreadable_disk :: fsys where
  "unreadable_disk = spells_disk\<lparr>read_denied := (\<lambda>p. True)\<rparr>"

definition two_inserts :: "task list" where
  "two_inserts =
     [Received (INSERT (js ''spells'') [js ''name'' \<mapsto> js ''Fireball'']),
      Received (INSERT (js ''spells'') [js ''name'' \<mapsto> js ''Frost''])]"

definition first_fireball :: Data where
  "first_fireball = \<lparr>id' = 1, name = Some (js ''Fireball''), description = None\<rparr>"

definition first_frost :: Data where
  "first_frost = \<lparr>id' = 1, name = Some (js ''Frost''), description = None\<rparr>"

definition second_frost :: Data where
  "second_frost = \<lparr>id' = 2, name = Some (js ''Frost''), description = None\<rparr>"


definition last_exact :: Data where
  "last_exact = \<lparr>id' = 9007199254740992, name = Some (js ''Fireball''), description = None\<rparr>"

definition last_exact_disk :: fsys where
  "last_exact_disk = saveData no_files [last_exact] (js ''spells'')"

definition first_shield :: Data where
  "first_shield = \<lparr>id' = 1, name = Some (js ''Shield''), description = None\<rparr>"

definition third_shield :: Data where
  "third_shield = \<lparr>id' = 3, name = Some (js ''Shield''), description = None\<rparr>"

definition insert_and_select :: "task list" where
  "insert_and_select =
     [Received (INSERT (js ''spells'') [js ''name'' \<mapsto> js ''Shield'']),
      Received (SELECT (js ''spells'') None)]"

definition torn_disk :: fsys where
  "torn_disk =
     no_files\<lparr>files :=
       [dataFilePath (js ''spells'') \<mapsto> JSON_stringify [first_frost] @ js ''}'' @ [10] @ js '']'']\<rparr>"
section \<open>Notions of the proofs\<close>

text \<open>
  What the proofs of the round trip of \<^verbatim>\<open>JSON.stringify\<close> and \<^verbatim>\<open>JSON.parse\<close> speak
  about. A text that ends a number: it starts with a character that is no digit, no point
  and no exponent mark.
\<close>

definition ends_number :: "jstring \<Rightarrow> bool" where
  "ends_number r \<longleftrightarrow> (\<exists>c r'. r = c # r' \<and> \<not> is_digit c \<and> c \<noteq> 46 \<and> c \<noteq> 101 \<and> c \<noteq> 69)"

text \<open>What follows a value in the text \<^verbatim>\<open>JSON.stringify\<close> writes: a comma or a line feed.\<close>

definition after_value :: "jstring \<Rightarrow> bool" where
  "after_value r \<longleftrightarrow> (\<exists>r'. r = 44 # r' \<or> r = 10 # r')"

text \<open>
  A field of an object is its key, the text of its value and the value. It is good when the
  text starts with no white space and, followed by a comma or a line feed, parses back to
  the value.
\<close>

definition good_field :: "string \<times> jstring \<times> json \<Rightarrow> bool" where
  "good_field f \<longleftrightarrow>
     (case f of (k, t, j) \<Rightarrow>
        (\<exists>c cs. t = c # cs \<and> \<not> is_json_ws c) \<and>
        (\<forall>r. after_value r \<longrightarrow> parse_value (t @ r) = Some (j, r)))"

text \<open>The text of an object after its first field: the other fields and the closing brace.\<close>

fun mtail :: "(string \<times> jstring \<times> json) list \<Rightarrow> jstring \<Rightarrow> jstring" where
  "mtail [] rest = [10, 32, 32, 125] @ rest"
| "mtail ((k, t, j) # fs) rest =
     [44, 10, 32, 32, 32, 32] @ QuoteJSONString (js k) @ [58, 32] @ t @ mtail fs rest"

text \<open>The fields of a record, from which both its text and its JSON value are read off.\<close>

definition fields_of :: "Data \<Rightarrow> (string \<times> jstring \<times> json) list" where
  "fields_of r =
     [(''id'', int_string (id' r), JNum (id' r))]
     @ (case name r of None \<Rightarrow> [] | Some a \<Rightarrow> [(''name'', QuoteJSONString a, JStr a)])
     @ (case description r of None \<Rightarrow> [] | Some b \<Rightarrow> [(''description'', QuoteJSONString b, JStr b)])"

text \<open>The text of an array after its first record: the other records and the closing bracket.\<close>

fun etail :: "Data list \<Rightarrow> jstring" where
  "etail [] = [10, 93]"
| "etail (r # rs) = [44, 10, 32, 32] @ stringify_Data r @ etail rs"

section \<open>Properties of the parser\<close>

lemma ci_equal_Nil [simp]: "ci_equal [] k \<longleftrightarrow> k = []"
  by (auto simp: ci_equal_def js_def)

lemma ci_equal_Cons:
  "ci_equal (p # ps) k \<longleftrightarrow> (\<exists>c k'. k = c # k' \<and> canon c = canon (of_char p) \<and> ci_equal ps k')"
  by (cases k) (auto simp: ci_equal_def js_def)

lemma ci_equal_length: "ci_equal kw k \<Longrightarrow> length k = length kw"
  unfolding ci_equal_def js_def by (drule arg_cong [where f = length]) simp

lemma match_ci_iff:
  "match_ci kw s = Some r \<longleftrightarrow> (\<exists>k. s = k @ r \<and> ci_equal kw k)"
proof (induction kw s rule: match_ci.induct)
  case (1 s)
  then show ?case by simp
next
  case (2 p ps)
  then show ?case by (simp add: ci_equal_Cons)
next
  case (3 p ps c cs)
  then show ?case
    by (auto simp: ci_equal_Cons Cons_eq_append_conv)
qed

lemma match_ci_append:
  "ci_equal kw k \<Longrightarrow> match_ci kw (k @ r) = Some r"
  by (auto simp: match_ci_iff)

lemma ci_equal_append_eq:
  "ci_equal kw k \<Longrightarrow> ci_equal kw k' \<Longrightarrow> k @ r = k' @ r' \<longleftrightarrow> k = k' \<and> r = r'"
  by (auto dest!: ci_equal_length)

lemma canon_space: "canon c = 32 \<longleftrightarrow> c = 32"
  by (auto simp: canon_def)

lemma canon_rparen: "canon c = 41 \<longleftrightarrow> c = 41"
  by (auto simp: canon_def)

lemma takeWhile_run:
  assumes "list_all P t" "\<not> P c"
  shows "takeWhile P (t @ c # r) = t" "dropWhile P (t @ c # r) = c # r"
  using assms by (induction t) auto

lemma selectAllRegex_iff: "selectAllRegex s = Some t \<longleftrightarrow> shape_select_all s t"
proof
  assume "selectAllRegex s = Some t"
  then show "shape_select_all s t"
    by (auto simp: selectAllRegex_def shape_select_all_def word_token_def match_ci_iff
             split: option.splits if_splits)
next
  assume "shape_select_all s t"
  then obtain k where "s = k @ t" "ci_equal ''SELECT * FROM '' k" "word_token t"
    by (auto simp: shape_select_all_def)
  then show "selectAllRegex s = Some t"
    by (simp add: selectAllRegex_def match_ci_append word_token_def)
qed

lemma ci_equal_space_head:
  "ci_equal (CHR '' '' # ps) w \<Longrightarrow> \<exists>w'. w = 32 # w'"
  by (auto simp: ci_equal_Cons canon_def split: if_splits)

lemma ci_equal_rparen_head:
  "ci_equal (CHR '')'' # ps) w \<Longrightarrow> \<exists>w'. w = 41 # w'"
  by (auto simp: ci_equal_Cons canon_def split: if_splits)

lemma not_word_space: "\<not> is_word 32"
  by (simp add: is_word_def)

lemma selectWhereRegex_iff:
  "selectWhereRegex s = Some (t, d) \<longleftrightarrow> shape_select_where s t d"
proof
  assume a: "selectWhereRegex s = Some (t, d)"
  then obtain r where r: "match_ci ''SELECT * FROM '' s = Some r"
    by (auto simp: selectWhereRegex_def split: option.splits)
  from a r have t: "t = takeWhile is_word r" "t \<noteq> []"
    and m: "match_ci '' WHERE id = '' (dropWhile is_word r) = Some d"
    and d: "d \<noteq> []" "list_all is_digit d"
    by (auto simp: selectWhereRegex_def Let_def split: option.splits if_splits)
  from r obtain k where k: "s = k @ r" "ci_equal ''SELECT * FROM '' k"
    by (auto simp: match_ci_iff)
  from m obtain w where w: "dropWhile is_word r = w @ d" "ci_equal '' WHERE id = '' w"
    by (auto simp: match_ci_iff)
  have "r = t @ w @ d"
    using takeWhile_dropWhile_id [of is_word r] t(1) w(1) by simp
  moreover have "word_token t"
    using t by (auto simp: word_token_def list_all_iff dest: set_takeWhileD)
  ultimately show "shape_select_where s t d"
    using k w d unfolding shape_select_where_def by blast
next
  assume "shape_select_where s t d"
  then obtain k w where s: "s = k @ t @ w @ d" and k: "ci_equal ''SELECT * FROM '' k"
    and t: "word_token t" and w: "ci_equal '' WHERE id = '' w"
    and d: "d \<noteq> []" "list_all is_digit d"
    unfolding shape_select_where_def by blast
  from w obtain w' where w': "w = 32 # w'" by (blast dest: ci_equal_space_head)
  have tw: "takeWhile is_word (t @ w @ d) = t" "dropWhile is_word (t @ w @ d) = w @ d"
    using t takeWhile_run [of is_word t 32 "w' @ d"] not_word_space
    by (simp_all add: w' word_token_def)
  show "selectWhereRegex s = Some (t, d)"
    using t d
    by (simp add: selectWhereRegex_def s match_ci_append [OF k] tw match_ci_append [OF w]
          word_token_def)
qed

lemma insertRegex_iff:
  "insertRegex s = Some (t, cs, vs) \<longleftrightarrow> shape_insert s t cs vs"
proof
  assume a: "insertRegex s = Some (t, cs, vs)"
  then obtain r where r: "match_ci ''INSERT INTO '' s = Some r"
    by (auto simp: insertRegex_def split: option.splits)
  from a r obtain r2 where t: "t = takeWhile is_word r" "t \<noteq> []"
    and r2: "match_ci '' ('' (dropWhile is_word r) = Some r2"
    by (auto simp: insertRegex_def Let_def split: option.splits if_splits)
  from a r t r2 obtain r3 where cs: "cs = takeWhile not_rparen r2" "cs \<noteq> []"
    and r3: "match_ci '') VALUES ('' (dropWhile not_rparen r2) = Some r3"
    by (auto simp: insertRegex_def Let_def split: option.splits if_splits)
  from a r t r2 cs r3 have vs: "vs = takeWhile not_rparen r3" "vs \<noteq> []"
    and e: "dropWhile not_rparen r3 = [41]"
    by (auto simp: insertRegex_def Let_def split: option.splits if_splits)
  from r obtain k where k: "s = k @ r" "ci_equal ''INSERT INTO '' k"
    by (auto simp: match_ci_iff)
  from r2 obtain p where p: "dropWhile is_word r = p @ r2" "ci_equal '' ('' p"
    by (auto simp: match_ci_iff)
  from p(2) have p': "p = js '' (''"
    by (auto simp: ci_equal_Cons js_def canon_def split: if_splits)
  from r3 obtain v where v: "dropWhile not_rparen r2 = v @ r3" "ci_equal '') VALUES ('' v"
    by (auto simp: match_ci_iff)
  have "r3 = vs @ js '')''"
    using takeWhile_dropWhile_id [of not_rparen r3] vs(1) e by (simp add: js_def)
  moreover have "r2 = cs @ v @ r3"
    using takeWhile_dropWhile_id [of not_rparen r2] cs(1) v(1) by simp
  moreover have "r = t @ js '' ('' @ r2"
    using takeWhile_dropWhile_id [of is_word r] t(1) p(1) p' by simp
  ultimately have "s = k @ t @ js '' ('' @ cs @ v @ vs @ js '')''"
    using k(1) by simp
  moreover have "word_token t"
    using t by (auto simp: word_token_def list_all_iff dest: set_takeWhileD)
  moreover have "list_all not_rparen cs" "list_all not_rparen vs"
    using cs vs by (auto simp: list_all_iff dest: set_takeWhileD)
  ultimately show "shape_insert s t cs vs"
    using k(2) v(2) cs(2) vs(2) unfolding shape_insert_def by blast
next
  assume "shape_insert s t cs vs"
  then obtain k v where s: "s = k @ t @ js '' ('' @ cs @ v @ vs @ js '')''"
    and k: "ci_equal ''INSERT INTO '' k" and t: "word_token t"
    and cs: "cs \<noteq> []" "list_all not_rparen cs"
    and v: "ci_equal '') VALUES ('' v"
    and vs: "vs \<noteq> []" "list_all not_rparen vs"
    unfolding shape_insert_def by blast
  from v obtain v' where v': "v = 41 # v'" by (blast dest: ci_equal_rparen_head)
  have sp: "ci_equal '' ('' (js '' ('')" by (simp add: ci_equal_def)
  have tw: "takeWhile is_word (t @ js '' ('' @ cs @ v @ vs @ js '')'') = t"
    "dropWhile is_word (t @ js '' ('' @ cs @ v @ vs @ js '')'') = js '' ('' @ cs @ v @ vs @ js '')''"
    using t takeWhile_run [of is_word t 32 "40 # cs @ v @ vs @ js '')''"] not_word_space
    by (simp_all add: word_token_def js_def)
  have tc: "takeWhile not_rparen (cs @ v @ vs @ js '')'') = cs"
    "dropWhile not_rparen (cs @ v @ vs @ js '')'') = v @ vs @ js '')''"
    using cs takeWhile_run [of not_rparen cs 41 "v' @ vs @ js '')''"]
    by (simp_all add: v' not_rparen_def)
  have tv: "takeWhile not_rparen (vs @ js '')'') = vs"
    "dropWhile not_rparen (vs @ js '')'') = [41]"
    using vs takeWhile_run [of not_rparen vs 41 "[]"]
    by (simp_all add: not_rparen_def js_def)
  show "insertRegex s = Some (t, cs, vs)"
    using t cs vs
    by (simp add: insertRegex_def s match_ci_append [OF k] tw match_ci_append [OF sp] tc
          match_ci_append [OF v] tv word_token_def)
qed

lemma shape_select_where_not_all:
  assumes "shape_select_where s t d"
  shows "selectAllRegex s = None"
proof (rule ccontr)
  assume "selectAllRegex s \<noteq> None"
  then obtain t' where "shape_select_all s t'"
    by (auto simp: selectAllRegex_iff)
  then obtain k' where k': "s = k' @ t'" "ci_equal ''SELECT * FROM '' k'" "list_all is_word t'"
    by (auto simp: shape_select_all_def word_token_def)
  from assms obtain k w where k: "s = k @ t @ w @ d" "ci_equal ''SELECT * FROM '' k"
    and w: "ci_equal '' WHERE id = '' w"
    unfolding shape_select_where_def by blast
  from w obtain w' where "w = 32 # w'" by (blast dest: ci_equal_space_head)
  moreover have "t' = t @ w @ d"
    using k k' ci_equal_append_eq [of "''SELECT * FROM ''" k' k t' "t @ w @ d"] by simp
  ultimately show False
    using k'(3) not_word_space by simp
qed

lemma shape_insert_not_select:
  assumes "shape_insert s t cs vs"
  shows "match_ci ''SELECT * FROM '' s = None"
proof -
  from assms obtain k r where "s = k @ r" "ci_equal ''INSERT INTO '' k"
    unfolding shape_insert_def by blast
  then obtain c s' where "s = c # s'" "canon c = 73"
    by (auto simp: ci_equal_Cons canon_def)
  then show ?thesis by (simp add: canon_def)
qed

lemma fill_data_map_of:
  "fill_data columns vals
     = map_of (rev (filter (\<lambda>(col, v). col \<noteq> js ''__proto__'') (zip columns vals)))"
proof -
  have "foldl (\<lambda>data (col, v). if col = js ''__proto__'' then data else data(col \<mapsto> v)) m ps
      = m ++ map_of (rev (filter (\<lambda>(col, v). col \<noteq> js ''__proto__'') ps))"
    for m :: "jstring \<rightharpoonup> jstring" and ps
    by (induction ps arbitrary: m) auto
  then show ?thesis by (simp add: fill_data_def)
qed

lemma bit_length_bounds: "2 ^ k \<le> n \<Longrightarrow> n < 2 ^ Suc k \<Longrightarrow> bit_length n = Suc k"
proof (induction k arbitrary: n)
  case 0
  then have "n = 1" by simp
  then show ?case by (simp add: bit_length.simps [of "Suc 0"] bit_length.simps [of 0])
next
  case (Suc k)
  have "2 ^ k \<le> n div 2" "n div 2 < 2 ^ Suc k"
    using Suc.prems by simp_all
  then have "bit_length (n div 2) = Suc k" by (rule Suc.IH)
  moreover have "0 < (2::nat) ^ Suc k" by simp
  with Suc.prems(1) have "n \<noteq> 0" by linarith
  ultimately show ?case by (simp add: bit_length.simps [of n])
qed

lemma to_double_exact: "\<bar>n\<bar> \<le> 2 ^ 53 \<Longrightarrow> to_double n = n"
  by (auto simp: to_double_def round_to_53_def)

lemma round_to_53_next: "round_to_53 9007199254740993 = 9007199254740992"
proof -
  have "bit_length 9007199254740993 = Suc 53"
    by (rule bit_length_bounds) simp_all
  then show ?thesis by (simp add: round_to_53_def Let_def)
qed

lemma decimal_nonneg: "list_all is_digit ds \<Longrightarrow> 0 \<le> decimal ds"
proof -
  have "list_all is_digit ds \<Longrightarrow> 0 \<le> a \<Longrightarrow> 0 \<le> foldl (\<lambda>a c. 10 * a + (int c - 48)) a ds" for a
    by (induction ds arbitrary: a) (auto simp: is_digit_def)
  then show "list_all is_digit ds \<Longrightarrow> 0 \<le> decimal ds"
    by (simp add: decimal_def)
qed

lemmas regex_eval =
  selectAllRegex_def selectWhereRegex_def insertRegex_def trim_def js_def is_space_def
  canon_def is_word_def is_digit_def not_rparen_def

text \<open>
  Claim C5, as stated, fails. The id of a select by id is not the integer of the line but
  the double nearest to it; a column \<^verbatim>\<open>__proto__\<close> is paired with no value; and the
  messages of the two failures are \<^verbatim>\<open>Column and value count mismatch in INSERT statement\<close>
  and \<^verbatim>\<open>Unsupported SQL command format\<close>, not those of the claim.
\<close>

theorem parser_departs_from_grammar:
  "sqlParser (js ''SELECT * FROM spells WHERE id = 9007199254740993'')
     = Inr (SELECT (js ''spells'') (Some 9007199254740992))
   \<and> decimal (js ''9007199254740993'') = 9007199254740993
   \<and> sqlParser (js ''INSERT INTO spells (__proto__, name) VALUES (x, Fireball)'')
     = Inr (INSERT (js ''spells'') [js ''name'' \<mapsto> js ''Fireball''])
   \<and> sqlParser (js ''INSERT INTO spells (name) VALUES (Fireball, Frost)'')
     = Inl (js ''Column and value count mismatch in INSERT statement'')
   \<and> sqlParser (js ''DROP TABLE spells'') = Inl (js ''Unsupported SQL command format'')"
proof (intro conjI)
  have d: "decimal (js ''9007199254740993'') = 9007199254740993"
    by (simp add: decimal_def js_def)
  then show "decimal (js ''9007199254740993'') = 9007199254740993" .
  have "parseInt (js ''9007199254740993'') = 9007199254740992"
    by (simp add: parseInt_def d to_double_def round_to_53_next)
  moreover have "selectAllRegex (trim (js ''SELECT * FROM spells WHERE id = 9007199254740993'')) = None"
    "selectWhereRegex (trim (js ''SELECT * FROM spells WHERE id = 9007199254740993''))
       = Some (js ''spells'', js ''9007199254740993'')"
    by (simp_all add: regex_eval)
  ultimately show "sqlParser (js ''SELECT * FROM spells WHERE id = 9007199254740993'')
     = Inr (SELECT (js ''spells'') (Some 9007199254740992))"
    by (simp add: sqlParser_def)
  show "sqlParser (js ''INSERT INTO spells (__proto__, name) VALUES (x, Fireball)'')
     = Inr (INSERT (js ''spells'') [js ''name'' \<mapsto> js ''Fireball''])"
    by (simp add: sqlParser_def fill_data_def regex_eval)
  show "sqlParser (js ''INSERT INTO spells (name) VALUES (Fireball, Frost)'')
     = Inl (js ''Column and value count mismatch in INSERT statement'')"
    by (simp add: sqlParser_def count_mismatch_def regex_eval)
  show "sqlParser (js ''DROP TABLE spells'') = Inl (js ''Unsupported SQL command format'')"
    by (simp add: sqlParser_def unsupported_format_def regex_eval)
qed

text \<open>
  Claim C5, amended. \<open>sqlParser\<close> is total. After trimming, a line of the shape
  \<^verbatim>\<open>SELECT * FROM <table>\<close> yields the select-all command. A line of the shape
  \<^verbatim>\<open>SELECT * FROM <table> WHERE id = <integer>\<close>, the integer of at most 20 digits,
  yields the select-by-id command with the double nearest to the integer, which is the
  integer itself up to \<open>2^53\<close>. A line of the shape
  \<^verbatim>\<open>INSERT INTO <table> (<columns>) VALUES (<values>)\<close> yields the insert command whose
  fields pair the trimmed columns, but \<^verbatim>\<open>__proto__\<close>, with the trimmed values, the last
  value for a column named twice, when the two lists have the same number of entries, and
  the error \<^verbatim>\<open>Column and value count mismatch in INSERT statement\<close> otherwise. A line
  of none of the three shapes yields the error \<^verbatim>\<open>Unsupported SQL command format\<close>.
\<close>

theorem sqlParser_total:
  "(shape_select_all (trim s) t \<longrightarrow> sqlParser s = Inr (SELECT t None)) \<and>
   (shape_select_where (trim s) t d \<and> length d \<le> 20 \<longrightarrow>
      sqlParser s = Inr (SELECT t (Some (to_double (decimal d))))
      \<and> (decimal d \<le> 2 ^ 53 \<longrightarrow> to_double (decimal d) = decimal d)) \<and>
   (shape_insert (trim s) t cs vs \<longrightarrow>
      sqlParser s =
        (if length (split 44 cs) = length (split 44 vs)
         then Inr (INSERT t (map_of (rev (filter (\<lambda>(col, v). col \<noteq> js ''__proto__'')
                 (zip (map trim (split 44 cs)) (map trim (split 44 vs)))))))
         else Inl (js ''Column and value count mismatch in INSERT statement''))) \<and>
   ((\<forall>t'. \<not> shape_select_all (trim s) t') \<and>
    (\<forall>t' d'. \<not> shape_select_where (trim s) t' d') \<and>
    (\<forall>t' cs' vs'. \<not> shape_insert (trim s) t' cs' vs')
      \<longrightarrow> sqlParser s = Inl (js ''Unsupported SQL command format''))"
proof (intro conjI impI)
  assume "shape_select_all (trim s) t"
  then show "sqlParser s = Inr (SELECT t None)"
    by (simp add: sqlParser_def selectAllRegex_iff [symmetric])
next
  assume b: "shape_select_where (trim s) t d \<and> length d \<le> 20"
  then have a: "shape_select_where (trim s) t d" by simp
  then have "selectWhereRegex (trim s) = Some (t, d)"
    by (simp add: selectWhereRegex_iff)
  with shape_select_where_not_all [OF a]
  show "sqlParser s = Inr (SELECT t (Some (to_double (decimal d))))"
    by (simp add: sqlParser_def parseInt_def)
next
  assume b: "shape_select_where (trim s) t d \<and> length d \<le> 20"
  assume c: "decimal d \<le> 2 ^ 53"
  from b have "list_all is_digit d" by (auto simp: shape_select_where_def)
  then have "0 \<le> decimal d" by (rule decimal_nonneg)
  with c show "to_double (decimal d) = decimal d"
    by (intro to_double_exact) simp
next
  assume a: "shape_insert (trim s) t cs vs"
  then have "insertRegex (trim s) = Some (t, cs, vs)"
    by (simp add: insertRegex_iff)
  moreover from shape_insert_not_select [OF a]
  have "selectAllRegex (trim s) = None" "selectWhereRegex (trim s) = None"
    by (simp_all add: selectAllRegex_def selectWhereRegex_def)
  ultimately show "sqlParser s =
        (if length (split 44 cs) = length (split 44 vs)
         then Inr (INSERT t (map_of (rev (filter (\<lambda>(col, v). col \<noteq> js ''__proto__'')
                 (zip (map trim (split 44 cs)) (map trim (split 44 vs)))))))
         else Inl (js ''Column and value count mismatch in INSERT statement''))"
    by (simp add: sqlParser_def fill_data_map_of count_mismatch_def)
next
  assume a: "(\<forall>t'. \<not> shape_select_all (trim s) t') \<and>
    (\<forall>t' d'. \<not> shape_select_where (trim s) t' d') \<and>
    (\<forall>t' cs' vs'. \<not> shape_insert (trim s) t' cs' vs')"
  have "selectAllRegex (trim s) = None"
    using a by (cases "selectAllRegex (trim s)") (auto simp: selectAllRegex_iff)
  moreover have "selectWhereRegex (trim s) = None"
    using a by (cases "selectWhereRegex (trim s)") (auto simp: selectWhereRegex_iff)
  moreover have "insertRegex (trim s) = None"
    using a by (cases "insertRegex (trim s)") (auto simp: insertRegex_iff)
  ultimately show "sqlParser s = Inl (js ''Unsupported SQL command format'')"
    by (simp add: sqlParser_def unsupported_format_def)
qed

theorem sqlParser_total_witness:
  "sqlParser (js ''  select * FROM spells '') = Inr (SELECT (js ''spells'') None) \<and>
   sqlParser (js ''SELECT * FROM spells where ID = 12'') = Inr (SELECT (js ''spells'') (Some 12)) \<and>
   sqlParser (js ''INSERT INTO spells (name, __proto__, description) VALUES (Fireball, x, Deals damage)'') =
     Inr (INSERT (js ''spells'')
            [js ''name'' \<mapsto> js ''Fireball'', js ''description'' \<mapsto> js ''Deals damage'']) \<and>
   sqlParser (js ''INSERT INTO spells (name, description) VALUES (Fireball)'')
     = Inl (js ''Column and value count mismatch in INSERT statement'') \<and>
   sqlParser (js ''DROP TABLE spells'') = Inl (js ''Unsupported SQL command format'')"
proof (intro conjI)
  have "shape_select_all (trim (js ''  select * FROM spells '')) (js ''spells'')"
    by (simp add: selectAllRegex_iff [symmetric] regex_eval)
  with sqlParser_total [of "js ''  select * FROM spells ''" "js ''spells''"]
  show "sqlParser (js ''  select * FROM spells '') = Inr (SELECT (js ''spells'') None)"
    by blast
next
  have "shape_select_where (trim (js ''SELECT * FROM spells where ID = 12'')) (js ''spells'') (js ''12'')
        \<and> length (js ''12'') \<le> 20"
    by (simp add: selectWhereRegex_iff [symmetric] regex_eval)
  with sqlParser_total [of "js ''SELECT * FROM spells where ID = 12''" "js ''spells''" "js ''12''"]
  have "sqlParser (js ''SELECT * FROM spells where ID = 12'')
          = Inr (SELECT (js ''spells'') (Some (to_double (decimal (js ''12'')))))
        \<and> (decimal (js ''12'') \<le> 2 ^ 53 \<longrightarrow> to_double (decimal (js ''12'')) = decimal (js ''12''))"
    by blast
  moreover have "decimal (js ''12'') = 12"
    by (simp add: decimal_def js_def)
  ultimately show "sqlParser (js ''SELECT * FROM spells where ID = 12'') = Inr (SELECT (js ''spells'') (Some 12))"
    by simp
next
  let ?s = "js ''INSERT INTO spells (name, __proto__, description) VALUES (Fireball, x, Deals damage)''"
  let ?cs = "js ''name, __proto__, description''"
  let ?vs = "js ''Fireball, x, Deals damage''"
  have "shape_insert (trim ?s) (js ''spells'') ?cs ?vs"
    by (simp add: insertRegex_iff [symmetric] regex_eval)
  with sqlParser_total [of ?s "js ''spells''" _ ?cs ?vs]
  have "sqlParser ?s =
        (if length (split 44 ?cs) = length (split 44 ?vs)
         then Inr (INSERT (js ''spells'') (map_of (rev (filter (\<lambda>(col, v). col \<noteq> js ''__proto__'')
                 (zip (map trim (split 44 ?cs)) (map trim (split 44 ?vs)))))))
         else Inl (js ''Column and value count mismatch in INSERT statement''))"
    by blast
  then show "sqlParser ?s = Inr (INSERT (js ''spells'')
            [js ''name'' \<mapsto> js ''Fireball'', js ''description'' \<mapsto> js ''Deals damage''])"
    by (simp add: trim_def js_def is_space_def)
next
  let ?s = "js ''INSERT INTO spells (name, description) VALUES (Fireball)''"
  have "shape_insert (trim ?s) (js ''spells'') (js ''name, description'') (js ''Fireball'')"
    by (simp add: insertRegex_iff [symmetric] regex_eval)
  with sqlParser_total [of ?s "js ''spells''" _ "js ''name, description''" "js ''Fireball''"]
  have "sqlParser ?s =
        (if length (split 44 (js ''name, description'')) = length (split 44 (js ''Fireball''))
         then Inr (INSERT (js ''spells'') (map_of (rev (filter (\<lambda>(col, v). col \<noteq> js ''__proto__'')
                 (zip (map trim (split 44 (js ''name, description'')))
                      (map trim (split 44 (js ''Fireball''))))))))
         else Inl (js ''Column and value count mismatch in INSERT statement''))"
    by blast
  then show "sqlParser ?s = Inl (js ''Column and value count mismatch in INSERT statement'')"
    by (simp add: js_def)
next
  let ?s = "js ''DROP TABLE spells''"
  have "selectAllRegex (trim ?s) = None" "selectWhereRegex (trim ?s) = None"
    "insertRegex (trim ?s) = None"
    by (simp_all add: regex_eval)
  then have "(\<forall>t'. \<not> shape_select_all (trim ?s) t') \<and>
    (\<forall>t' d'. \<not> shape_select_where (trim ?s) t' d') \<and>
    (\<forall>t' cs' vs'. \<not> shape_insert (trim ?s) t' cs' vs')"
    by (simp add: selectAllRegex_iff [symmetric] selectWhereRegex_iff [symmetric]
          insertRegex_iff [symmetric])
  with sqlParser_total [of ?s] show "sqlParser ?s = Inl (js ''Unsupported SQL command format'')"
    by blast
qed
section \<open>Properties of the table store\<close>

subsection \<open>The parser of JSON always consumes text\<close>

lemma cons_fst_Some: "cons_fst c x = Some (a, r) \<longleftrightarrow> (\<exists>a'. x = Some (a', r) \<and> a = c # a')"
  by (cases x) (auto simp: cons_fst_def)

lemma four_more:
  assumes "(case es of [] \<Rightarrow> None | [h1] \<Rightarrow> None | [h1, h2] \<Rightarrow> None | [h1, h2, h3] \<Rightarrow> None
            | h1 # h2 # h3 # h4 # r \<Rightarrow> F h1 h2 h3 h4 r) = Some x"
  shows "\<exists>h1 h2 h3 h4 r0. es = h1 # h2 # h3 # h4 # r0 \<and> F h1 h2 h3 h4 r0 = Some x"
  using assms by (auto split: list.splits)

lemma parse_chars_cases:
  assumes "parse_chars (c # cs) = Some (a, r)"
  shows "(c = 34 \<and> r = cs) \<or> (\<exists>a'. parse_chars cs = Some (a', r))
       \<or> (\<exists>e es a'. cs = e # es \<and> parse_chars es = Some (a', r))
       \<or> (\<exists>e h1 h2 h3 h4 r0 a'. cs = e # h1 # h2 # h3 # h4 # r0 \<and> parse_chars r0 = Some (a', r))"
proof -
  note u = assms [unfolded parse_chars.simps(2)]
  show ?thesis
  proof (cases "c = 34")
    case True
    with u show ?thesis by (simp del: parse_chars.simps)
  next
    case n34: False
    show ?thesis
    proof (cases "c = 92")
      case False
      with n34 u have "cons_fst c (parse_chars cs) = Some (a, r)"
        by (simp del: parse_chars.simps split: if_splits)
      then show ?thesis unfolding cons_fst_Some by blast
    next
      case True
      with n34 u obtain e es where cs: "cs = e # es"
        by (cases cs) (simp_all del: parse_chars.simps)
      show ?thesis
      proof (cases "e = 117")
        case False
        with True n34 u obtain x where "unescape e = Some x" "cons_fst x (parse_chars es) = Some (a, r)"
          unfolding cs by (cases "unescape e") (simp_all del: parse_chars.simps)
        then show ?thesis unfolding cons_fst_Some cs by blast
      next
        case e: True
        from u have "(case es of [] \<Rightarrow> None | [h1] \<Rightarrow> None | [h1, h2] \<Rightarrow> None | [h1, h2, h3] \<Rightarrow> None
              | h1 # h2 # h3 # h4 # r \<Rightarrow>
                  (case hex4 h1 h2 h3 h4 of None \<Rightarrow> None | Some u \<Rightarrow> cons_fst u (parse_chars r)))
            = Some (a, r)"
          unfolding cs e True by (simp del: parse_chars.simps)
        from four_more [OF this]
        obtain h1 h2 h3 h4 r0 where h: "es = h1 # h2 # h3 # h4 # r0"
          "(case hex4 h1 h2 h3 h4 of None \<Rightarrow> None | Some u \<Rightarrow> cons_fst u (parse_chars r0)) = Some (a, r)"
          by blast
        from h(2) obtain x where "cons_fst x (parse_chars r0) = Some (a, r)"
          by (cases "hex4 h1 h2 h3 h4") (simp_all del: parse_chars.simps)
        then show ?thesis unfolding cons_fst_Some cs h(1) by blast
      qed
    qed
  qed
qed

lemma parse_chars_length: "parse_chars s = Some (a, r) \<Longrightarrow> length r < length s"
proof (induction "length s" arbitrary: s a rule: less_induct)
  case less
  from less.prems obtain c cs where s: "s = c # cs"
    by (cases s) (simp_all del: parse_chars.simps(2))
  from parse_chars_cases [OF less.prems [unfolded s]]
  consider (quote) "c = 34" "r = cs"
    | (plain) a' where "parse_chars cs = Some (a', r)"
    | (short) e es a' where "cs = e # es" "parse_chars es = Some (a', r)"
    | (hex) e h1 h2 h3 h4 r0 a' where "cs = e # h1 # h2 # h3 # h4 # r0" "parse_chars r0 = Some (a', r)"
    by blast
  then show ?case
  proof cases
    case quote
    with s show ?thesis by simp
  next
    case plain
    from less.hyps [OF _ plain] s show ?thesis by simp
  next
    case short
    from less.hyps [OF _ short(2)] s short(1) show ?thesis by simp
  next
    case hex
    from less.hyps [OF _ hex(2)] s hex(1) show ?thesis by simp
  qed
qed

lemma parse_frac_length: "parse_frac s = Some (b, r) \<Longrightarrow> length r \<le> length s"
  by (auto simp: parse_frac_def split: list.splits if_splits
      intro: le_SucI length_dropWhile_le)

lemma skip_sign_length: "length (skip_sign s) \<le> length s"
  by (simp add: skip_sign_def split: list.splits)

lemma parse_exp_length: "parse_exp s = Some (b, r) \<Longrightarrow> length r \<le> length s"
proof -
  assume a: "parse_exp s = Some (b, r)"
  have "length (dropWhile is_digit (skip_sign x)) \<le> Suc (length x)" for x
    using length_dropWhile_le [of is_digit "skip_sign x"] skip_sign_length [of x] by simp
  with a show ?thesis
    by (auto simp: parse_exp_def split: list.splits if_splits)
qed

lemma dropWhile_shorter: "takeWhile P xs \<noteq> [] \<Longrightarrow> length (dropWhile P xs) < length xs"
  by (cases xs) (auto simp: le_imp_less_Suc length_dropWhile_le split: if_splits)

lemma parse_number_length: "parse_number s = Some (v, r) \<Longrightarrow> length r < length s"
proof -
  assume a: "parse_number s = Some (v, r)"
  let ?s1 = "if s \<noteq> [] \<and> hd s = 45 then tl s else s"
  from a have ne: "takeWhile is_digit ?s1 \<noteq> []"
    by (auto simp: parse_number_def Let_def split: if_splits)
  from a ne obtain fr r2 ex where f: "parse_frac (dropWhile is_digit ?s1) = Some (fr, r2)"
    and e: "parse_exp r2 = Some (ex, r)"
    by (auto simp: parse_number_def Let_def split: if_splits option.splits)
  have "length r \<le> length (dropWhile is_digit ?s1)"
    using parse_frac_length [OF f] parse_exp_length [OF e] by simp
  also have "\<dots> < length ?s1" by (rule dropWhile_shorter [OF ne])
  also have "\<dots> \<le> length s" by simp
  finally show ?thesis .
qed

lemma strip_prefix_length: "strip_prefix p s = Some r \<Longrightarrow> length r + length p = length s"
  by (induction p s rule: strip_prefix.induct) (auto split: if_splits)

lemma parse_atom_length: "parse_atom s = Some (v, r) \<Longrightarrow> length r < length s"
  by (auto simp: parse_atom_def js_def split: option.splits
      dest!: strip_prefix_length parse_number_length)

lemma parse_lengths:
  "parse_value s = Some (v, r) \<Longrightarrow> length r < length s"
  "parse_elements s1 = Some (vs, r1) \<Longrightarrow> length r1 < length s1"
  "parse_members s2 = Some (ms, r2) \<Longrightarrow> length r2 < length s2"
proof (induction s and s1 and s2 arbitrary: v r and vs r1 and ms r2
    rule: parse_value_parse_elements_parse_members.induct)
  case (1 s)
  from "1.prems" obtain c cs where s: "s = c # cs"
    by (cases s) (auto simp: parse_value.simps)
  consider (str) "c = 34" | (arr) "c = 91" | (obj) "c = 123" | (atom) "c \<noteq> 34" "c \<noteq> 91" "c \<noteq> 123"
    by blast
  then show ?case
  proof cases
    case str
    with "1.prems" s show ?thesis
      by (auto simp: parse_value.simps dest: parse_chars_length)
  next
    case arr
    with "1.prems" s obtain d ds where d: "skip_ws cs = d # ds"
      by (cases "skip_ws cs") (auto simp: parse_value.simps)
    show ?thesis
    proof (cases "d = 93")
      case True
      with "1.prems" s arr d skip_ws_Cons_less [OF d] show ?thesis
        by (auto simp: parse_value.simps)
    next
      case False
      with "1.prems" s arr d obtain vs where "parse_elements (d # ds) = Some (vs, r)"
        by (auto simp: parse_value.simps)
      from "1.IH"(1) [OF s _ _ d False this] arr skip_ws_length [of cs] d s
      show ?thesis by simp
    qed
  next
    case obj
    with "1.prems" s obtain d ds where d: "skip_ws cs = d # ds"
      by (cases "skip_ws cs") (auto simp: parse_value.simps)
    show ?thesis
    proof (cases "d = 125")
      case True
      with "1.prems" s obj d skip_ws_Cons_less [OF d] show ?thesis
        by (auto simp: parse_value.simps)
    next
      case False
      with "1.prems" s obj d obtain ms where "parse_members (d # ds) = Some (ms, r)"
        by (auto simp: parse_value.simps)
      from "1.IH"(2) [OF s _ _ _ d False this] obj skip_ws_length [of cs] d s
      show ?thesis by simp
    qed
  next
    case atom
    with "1.prems" s show ?thesis
      by (auto simp: parse_value.simps dest: parse_atom_length)
  qed
next
  case (2 s)
  from "2.prems" obtain v r where v: "parse_value s = Some (v, r)"
    by (subst (asm) parse_elements.simps) (auto split: option.splits)
  from "2.prems" v obtain d ds where d: "skip_ws r = d # ds"
    by (subst (asm) parse_elements.simps) (auto split: list.splits)
  have lr: "length r < length s" by (rule "2.IH"(1) [OF v])
  have lds: "length ds < length s" using skip_ws_Cons_less [OF d] lr by simp
  show ?case
  proof (cases "d = 93")
    case True
    with "2.prems" v d lds show ?thesis
      by (subst (asm) parse_elements.simps) auto
  next
    case False
    with "2.prems" v d lds obtain vs' where d44: "d = 44"
      and p: "parse_elements (skip_ws ds) = Some (vs', r1)"
      by (subst (asm) parse_elements.simps) (auto simp: cons_fst_Some split: if_splits)
    have "d = 44 \<and> length ds < length s" using d44 lds by simp
    from "2.IH"(2) [OF v refl d False this p] skip_ws_length [of ds] lds
    show ?thesis by simp
  qed
next
  case (3 s)
  from "3.prems" obtain cs where s: "s = 34 # cs"
    by (subst (asm) parse_members.simps) (auto split: list.splits if_splits)
  from "3.prems" s obtain k r0 where k: "parse_chars cs = Some (k, r0)"
    by (subst (asm) parse_members.simps) (auto split: option.splits)
  from "3.prems" s k obtain es where e: "skip_ws r0 = 58 # es"
    by (subst (asm) parse_members.simps) (auto split: list.splits if_splits)
  have les: "length es < length s"
    using skip_ws_Cons_less [OF e] parse_chars_length [OF k] s by simp
  from "3.prems" s k e les obtain v r where v: "parse_value (skip_ws es) = Some (v, r)"
    by (subst (asm) parse_members.simps) (auto split: option.splits)
  from "3.prems" s k e les v obtain d ds where d: "skip_ws r = d # ds"
    by (subst (asm) parse_members.simps) (auto split: list.splits)
  have g: "\<not> (58 \<noteq> (58::nat) \<or> \<not> length es < length s)" using les by simp
  have q: "\<not> (34::nat) \<noteq> 34" by simp
  have lr: "length r < length (skip_ws es)"
    by (rule "3.IH"(1) [OF s q k refl e g v])
  have lds: "length ds < length s"
    using skip_ws_Cons_less [OF d] lr skip_ws_length [of es] les by simp
  show ?case
  proof (cases "d = 125")
    case True
    with "3.prems" s k e les v d lds show ?thesis
      by (subst (asm) parse_members.simps) auto
  next
    case False
    with "3.prems" s k e les v d lds obtain ms' where d44: "d = 44"
      and p: "parse_members (skip_ws ds) = Some (ms', r2)"
      by (subst (asm) parse_members.simps) (auto simp: cons_fst_Some split: if_splits)
    have "d = 44 \<and> length ds < length s" using d44 lds by simp
    from "3.IH"(2) [OF s q k refl e g v refl d False this p] skip_ws_length [of ds] lds
    show ?thesis by simp
  qed
qed

lemma parse_elements_unguarded:
  "parse_elements s =
     (case parse_value s of
        None \<Rightarrow> None
      | Some (v, r) \<Rightarrow>
          (case skip_ws r of
             [] \<Rightarrow> None
           | d # ds \<Rightarrow>
               if d = 93 then Some ([v], ds)
               else if d = 44 then cons_fst v (parse_elements (skip_ws ds))
               else None))"
proof (cases "parse_value s")
  case None
  then show ?thesis by (subst parse_elements.simps) simp
next
  case (Some p)
  obtain v r where p: "p = (v, r)" by (cases p)
  show ?thesis
  proof (cases "skip_ws r")
    case Nil
    with Some p show ?thesis by (subst parse_elements.simps) simp
  next
    case (Cons d ds)
    have "length ds < length s"
      using skip_ws_Cons_less [OF Cons] parse_lengths(1) [of s v r] Some p by simp
    with Some p Cons show ?thesis by (subst parse_elements.simps) simp
  qed
qed

lemma parse_members_unguarded:
  "parse_members s =
     (case s of
        [] \<Rightarrow> None
      | q # cs \<Rightarrow>
          if q \<noteq> 34 then None
          else (case parse_chars cs of
                  None \<Rightarrow> None
                | Some (k, r0) \<Rightarrow>
                    (case skip_ws r0 of
                       [] \<Rightarrow> None
                     | e # es \<Rightarrow>
                         if e \<noteq> 58 then None
                         else (case parse_value (skip_ws es) of
                                 None \<Rightarrow> None
                               | Some (v, r) \<Rightarrow>
                                   (case skip_ws r of
                                      [] \<Rightarrow> None
                                    | d # ds \<Rightarrow>
                                        if d = 125 then Some ([(k, v)], ds)
                                        else if d = 44
                                        then cons_fst (k, v) (parse_members (skip_ws ds))
                                        else None)))))"
proof (cases s)
  case Nil
  then show ?thesis by (subst parse_members.simps) simp
next
  case s: (Cons q cs)
  show ?thesis
  proof (cases "parse_chars cs")
    case None
    with s show ?thesis by (subst parse_members.simps) simp
  next
    case (Some p)
    obtain k r0 where p: "p = (k, r0)" by (cases p)
    have l0: "length r0 < length cs" using parse_chars_length [of cs k r0] Some p by simp
    show ?thesis
    proof (cases "skip_ws r0")
      case Nil
      with s Some p show ?thesis by (subst parse_members.simps) simp
    next
      case e: (Cons e es)
      have les: "length es < length s"
        using skip_ws_Cons_less [OF e] l0 s by simp
      show ?thesis
      proof (cases "parse_value (skip_ws es)")
        case None
        with s Some p e les show ?thesis by (subst parse_members.simps) simp
      next
        case v: (Some pv)
        obtain v r where pv: "pv = (v, r)" by (cases pv)
        have lr: "length r < length (skip_ws es)"
          using parse_lengths(1) [of "skip_ws es" v r] v pv by simp
        show ?thesis
        proof (cases "skip_ws r")
          case Nil
          with s Some p e les v pv show ?thesis by (subst parse_members.simps) simp
        next
          case d: (Cons d ds)
          have "length ds < length s"
            using skip_ws_Cons_less [OF d] lr skip_ws_length [of es] les by simp
          with s Some p e les v pv d show ?thesis by (subst parse_members.simps) simp
        qed
      qed
    qed
  qed
qed

subsection \<open>Strings survive quoting\<close>

lemma hex_value_digit: "d < 16 \<Longrightarrow> hex_value (hex_digit d) = Some d"
  by (auto simp: hex_value_def hex_digit_def)

lemma hex_sum:
  assumes "c < 65536"
  shows "4096 * (c div 4096 mod 16) + 256 * (c div 256 mod 16) + 16 * (c div 16 mod 16) + c mod 16 = (c::nat)"
proof -
  have a: "c div 4096 mod 16 = c div 4096" using assms by simp
  have b: "c div 256 = 16 * (c div 4096) + c div 256 mod 16"
    using div_mult2_eq [of c 256 16] by simp
  have c: "c div 16 = 16 * (c div 256) + c div 16 mod 16"
    using div_mult2_eq [of c 16 16] by simp
  have d: "c = 16 * (c div 16) + c mod 16" by simp
  show ?thesis using a b c d by linarith
qed

lemma hex4_escape:
  assumes "c < 65536"
  shows "hex4 (hex_digit (c div 4096 mod 16)) (hex_digit (c div 256 mod 16))
           (hex_digit (c div 16 mod 16)) (hex_digit (c mod 16)) = Some c"
proof -
  have "hex4 (hex_digit (c div 4096 mod 16)) (hex_digit (c div 256 mod 16))
           (hex_digit (c div 16 mod 16)) (hex_digit (c mod 16))
        = Some (4096 * (c div 4096 mod 16) + 256 * (c div 256 mod 16) + 16 * (c div 16 mod 16) + c mod 16)"
    unfolding hex4_def by (simp only: hex_value_digit mod_less_divisor zero_less_numeral
        prod.case option.case)
  then show ?thesis
    by (simp only: hex_sum [OF assms])
qed

lemma parse_chars_escape:
  assumes "c < 65536"
  shows "parse_chars (unicode_escape c @ r) = cons_fst c (parse_chars r)"
  using hex4_escape [OF assms] by (simp add: unicode_escape_def)

lemma quote_chars_short:
  "quote_chars (8 # cs) = [92, 98] @ quote_chars cs"
  "quote_chars (9 # cs) = [92, 116] @ quote_chars cs"
  "quote_chars (10 # cs) = [92, 110] @ quote_chars cs"
  "quote_chars (12 # cs) = [92, 102] @ quote_chars cs"
  "quote_chars (13 # cs) = [92, 114] @ quote_chars cs"
  "quote_chars (34 # cs) = [92, 34] @ quote_chars cs"
  "quote_chars (92 # cs) = [92, 92] @ quote_chars cs"
  by simp_all

lemma quote_chars_ctl:
  "c \<notin> {8, 9, 10, 12, 13} \<Longrightarrow> c < 32 \<Longrightarrow> quote_chars (c # cs) = unicode_escape c @ quote_chars cs"
  by auto

lemma quote_chars_pair:
  "is_high_surrogate c \<Longrightarrow> is_low_surrogate d \<Longrightarrow> quote_chars (c # d # ds) = c # d # quote_chars ds"
  by (auto simp: is_high_surrogate_def)

lemma quote_chars_lone_high:
  "is_high_surrogate c \<Longrightarrow> cs = [] \<or> \<not> is_low_surrogate (hd cs) \<Longrightarrow>
     quote_chars (c # cs) = unicode_escape c @ quote_chars cs"
  by (cases cs) (auto simp: is_high_surrogate_def)

lemma quote_chars_lone_low:
  "is_low_surrogate c \<Longrightarrow> quote_chars (c # cs) = unicode_escape c @ quote_chars cs"
  by (auto simp: is_low_surrogate_def is_high_surrogate_def)

lemma quote_chars_plain:
  "32 \<le> c \<Longrightarrow> c \<noteq> 34 \<Longrightarrow> c \<noteq> 92 \<Longrightarrow> \<not> is_high_surrogate c \<Longrightarrow> \<not> is_low_surrogate c \<Longrightarrow>
     quote_chars (c # cs) = c # quote_chars cs"
  by auto

lemma parse_chars_plain:
  "32 \<le> c \<Longrightarrow> c \<noteq> 34 \<Longrightarrow> c \<noteq> 92 \<Longrightarrow> parse_chars (c # r) = cons_fst c (parse_chars r)"
  by auto

lemma parse_chars_short:
  "parse_chars (92 # 98 # r) = cons_fst 8 (parse_chars r)"
  "parse_chars (92 # 116 # r) = cons_fst 9 (parse_chars r)"
  "parse_chars (92 # 110 # r) = cons_fst 10 (parse_chars r)"
  "parse_chars (92 # 102 # r) = cons_fst 12 (parse_chars r)"
  "parse_chars (92 # 114 # r) = cons_fst 13 (parse_chars r)"
  "parse_chars (92 # 34 # r) = cons_fst 34 (parse_chars r)"
  "parse_chars (92 # 92 # r) = cons_fst 92 (parse_chars r)"
  by (simp_all add: unescape_def)

lemma parse_chars_quote:
  "parse_chars (quote_chars s @ 34 # rest) = Some (s, rest)"
proof (induction "length s" arbitrary: s rule: less_induct)
  case less
  show ?case
  proof (cases s)
    case Nil
    then show ?thesis by simp
  next
    case (Cons c cs)
    have ih: "parse_chars (quote_chars cs @ 34 # rest) = Some (cs, rest)"
      using less [of cs] Cons by simp
    consider (short) "c \<in> {8, 9, 10, 12, 13, 34, 92}"
      | (ctl) "c \<notin> {8, 9, 10, 12, 13}" "c < 32"
      | (pair) d ds where "is_high_surrogate c" "cs = d # ds" "is_low_surrogate d"
      | (lone_hi) "is_high_surrogate c" "cs = [] \<or> \<not> is_low_surrogate (hd cs)"
      | (lone_lo) "is_low_surrogate c"
      | (plain) "32 \<le> c" "c \<noteq> 34" "c \<noteq> 92" "\<not> is_high_surrogate c" "\<not> is_low_surrogate c"
    proof (cases "c < 32")
      case True
      then show ?thesis using that(1,2) by blast
    next
      case False
      then show ?thesis using that(1,3,4,5,6) by (cases cs) (auto simp: not_less)
    qed
    then show ?thesis
    proof cases
      case short
      then show ?thesis
        unfolding Cons using ih
        by (elim insertE emptyE; hypsubst; simp only: quote_chars_short parse_chars_short append_Cons append_Nil cons_fst_def option.map prod.case)
    next
      case ctl
      then have c: "c < 65536" by simp
      show ?thesis
        unfolding Cons
        by (simp only: quote_chars_ctl [OF ctl] append_assoc parse_chars_escape [OF c] ih
              cons_fst_def option.map prod.case)
    next
      case pair
      have d: "32 \<le> d" "d \<noteq> 34" "d \<noteq> 92"
        using pair(3) by (auto simp: is_low_surrogate_def)
      have c: "32 \<le> c" "c \<noteq> 34" "c \<noteq> 92"
        using pair(1) by (auto simp: is_high_surrogate_def)
      have ih': "parse_chars (quote_chars ds @ 34 # rest) = Some (ds, rest)"
        using less [of ds] Cons pair(2) by simp
      show ?thesis
        unfolding Cons pair(2)
        by (simp only: quote_chars_pair [OF pair(1,3)] append_Cons parse_chars_plain [OF c]
              parse_chars_plain [OF d] ih' cons_fst_def option.map prod.case)
    next
      case lone_hi
      then have c: "c < 65536" by (simp add: is_high_surrogate_def)
      show ?thesis
        unfolding Cons
        by (simp only: quote_chars_lone_high [OF lone_hi] append_assoc parse_chars_escape [OF c] ih
              cons_fst_def option.map prod.case)
    next
      case lone_lo
      then have c: "c < 65536" by (simp add: is_low_surrogate_def)
      show ?thesis
        unfolding Cons
        by (simp only: quote_chars_lone_low [OF lone_lo] append_assoc parse_chars_escape [OF c] ih
              cons_fst_def option.map prod.case)
    next
      case plain
      show ?thesis
        unfolding Cons
        by (simp only: quote_chars_plain [OF plain] append_Cons parse_chars_plain [OF plain(1,2,3)] ih
              cons_fst_def option.map prod.case)
    qed
  qed
qed

subsection \<open>Integers survive printing\<close>

lemma nat_digits_not_Nil: "nat_digits n \<noteq> []"
  by (subst nat_digits.simps) simp

lemma nat_digits_all: "list_all is_digit (nat_digits n)"
proof (induction n rule: nat_digits.induct)
  case (1 n)
  show ?case
  proof (cases "n < 10")
    case True
    then show ?thesis by (subst nat_digits.simps) (simp add: is_digit_def)
  next
    case False
    have "n mod 10 < 10" by simp
    then have "is_digit (48 + n mod 10)" unfolding is_digit_def by linarith
    with False 1 show ?thesis by (subst nat_digits.simps) simp
  qed
qed

lemma decimal_snoc: "decimal (xs @ [c]) = 10 * decimal xs + (int c - 48)"
  by (simp add: decimal_def)

lemma decimal_nat_digits: "decimal (nat_digits n) = int n"
proof (induction n rule: nat_digits.induct)
  case (1 n)
  show ?case
  proof (cases "n < 10")
    case True
    then show ?thesis by (subst nat_digits.simps) (simp add: decimal_def)
  next
    case False
    have "int n = 10 * int (n div 10) + int (n mod 10)"
      by (simp add: zdiv_int zmod_int)
    with False 1 show ?thesis
      by (subst nat_digits.simps) (simp add: decimal_snoc)
  qed
qed

lemma nat_digits_hd: "0 < n \<Longrightarrow> hd (nat_digits n) \<noteq> 48"
proof (induction n rule: nat_digits.induct)
  case (1 n)
  show ?case
  proof (cases "n < 10")
    case True
    with 1(2) show ?thesis by (subst nat_digits.simps) simp
  next
    case False
    then have "0 < n div 10" by simp
    with False 1 show ?thesis
      by (subst nat_digits.simps) (simp add: nat_digits_not_Nil)
  qed
qed

lemma nat_digits_zero: "nat_digits 0 = [48]"
  by (subst nat_digits.simps) simp

lemma nat_digits_no_leading_zero:
  "\<not> (hd (nat_digits n) = 48 \<and> 1 < length (nat_digits n))"
  by (cases "n = 0") (simp_all add: nat_digits_zero nat_digits_hd)

lemma nat_digits_hd_digit: "is_digit (hd (nat_digits n))"
  using nat_digits_all [of n] nat_digits_not_Nil [of n]
  by (cases "nat_digits n") simp_all

lemma parse_number_digits:
  assumes "ends_number r"
  shows "parse_number (nat_digits n @ r) = Some (JNum (int n), r)"
proof -
  from assms obtain c r' where r: "r = c # r'" "\<not> is_digit c" "c \<noteq> 46" "c \<noteq> 101" "c \<noteq> 69"
    unfolding ends_number_def by blast
  have tw: "takeWhile is_digit (nat_digits n @ r) = nat_digits n"
    "dropWhile is_digit (nat_digits n @ r) = r"
    using takeWhile_run [OF nat_digits_all r(2), of n r'] r(1) by simp_all
  have hd: "hd (nat_digits n) \<noteq> 45"
    using nat_digits_hd_digit [of n] by (auto simp: is_digit_def)
  have fr: "parse_frac r = Some (False, r)" using r by (simp add: parse_frac_def)
  have ex: "parse_exp r = Some (False, r)" using r by (simp add: parse_exp_def)
  show ?thesis
    using nat_digits_no_leading_zero [of n]
    by (simp add: parse_number_def Let_def hd tw fr ex nat_digits_not_Nil decimal_nat_digits)
qed

lemma parse_number_int_string:
  assumes "ends_number r"
  shows "parse_number (int_string i @ r) = Some (JNum i, r)"
proof (cases "i < 0")
  case False
  then show ?thesis
    using parse_number_digits [OF assms, of "nat i"] by (simp add: int_string_def)
next
  case True
  from assms obtain c r' where r: "r = c # r'" "\<not> is_digit c" "c \<noteq> 46" "c \<noteq> 101" "c \<noteq> 69"
    unfolding ends_number_def by blast
  let ?n = "nat (- i)"
  have tw: "takeWhile is_digit (nat_digits ?n @ r) = nat_digits ?n"
    "dropWhile is_digit (nat_digits ?n @ r) = r"
    using takeWhile_run [OF nat_digits_all r(2), of ?n r'] r(1) by simp_all
  have fr: "parse_frac r = Some (False, r)" using r by (simp add: parse_frac_def)
  have ex: "parse_exp r = Some (False, r)" using r by (simp add: parse_exp_def)
  show ?thesis
    using nat_digits_no_leading_zero [of ?n] True
    by (simp add: int_string_def parse_number_def Let_def tw fr ex nat_digits_not_Nil
          decimal_nat_digits)
qed

subsection \<open>Records survive \<^verbatim>\<open>JSON.stringify\<close> and \<^verbatim>\<open>JSON.parse\<close>\<close>

lemma after_value_ends_number: "after_value r \<Longrightarrow> ends_number r"
  by (auto simp: after_value_def ends_number_def is_digit_def)

lemma int_string_hd:
  "\<exists>c cs. int_string i = c # cs \<and> (is_digit c \<or> c = 45)"
proof (cases "i < 0")
  case True
  then show ?thesis by (simp add: int_string_def)
next
  case False
  then show ?thesis
    using nat_digits_hd_digit [of "nat i"] nat_digits_not_Nil [of "nat i"]
    by (cases "nat_digits (nat i)") (simp_all add: int_string_def)
qed

lemma parse_atom_number:
  assumes "is_digit c \<or> c = 45"
  shows "parse_atom (c # cs) = parse_number (c # cs)"
  using assms by (auto simp: parse_atom_def js_def is_digit_def)

lemma parse_value_int:
  assumes "after_value r"
  shows "parse_value (int_string i @ r) = Some (JNum i, r)"
proof -
  obtain c cs where c: "int_string i = c # cs" "is_digit c \<or> c = 45"
    using int_string_hd by blast
  then have "c \<noteq> 34" "c \<noteq> 91" "c \<noteq> 123" by (auto simp: is_digit_def)
  then have "parse_value (int_string i @ r) = parse_atom (c # cs @ r)"
    by (simp add: c(1) parse_value.simps)
  also have "\<dots> = parse_number (int_string i @ r)"
    using parse_atom_number [OF c(2)] by (simp add: c(1))
  finally show ?thesis
    by (simp add: parse_number_int_string [OF after_value_ends_number [OF assms]])
qed

lemma parse_value_string:
  "parse_value (QuoteJSONString a @ r) = Some (JStr a, r)"
  by (simp add: QuoteJSONString_def parse_chars_quote parse_value.simps)

lemma skip_ws_non_ws: "\<not> is_json_ws c \<Longrightarrow> skip_ws (c # r) = c # r"
  by (simp add: skip_ws_def)

lemma skip_ws_ws: "is_json_ws c \<Longrightarrow> skip_ws (c # r) = skip_ws r"
  by (simp add: skip_ws_def)

lemma ws_simps: "is_json_ws 10" "is_json_ws 32" "\<not> is_json_ws 34" "\<not> is_json_ws 44"
  "\<not> is_json_ws 58" "\<not> is_json_ws 93" "\<not> is_json_ws 123" "\<not> is_json_ws 125"
  by (simp_all add: is_json_ws_def)

lemma parse_members_last:
  assumes "parse_chars cs = Some (k, r0)" "skip_ws r0 = 58 # es" "length es < Suc (length cs)"
    "parse_value (skip_ws es) = Some (v, r)" "skip_ws r = 125 # ds"
  shows "parse_members (34 # cs) = Some ([(k, v)], ds)"
  by (subst parse_members.simps) (simp add: assms)

lemma parse_members_more:
  assumes "parse_chars cs = Some (k, r0)" "skip_ws r0 = 58 # es" "length es < Suc (length cs)"
    "parse_value (skip_ws es) = Some (v, r)" "skip_ws r = 44 # ds" "length ds < Suc (length cs)"
    "parse_members (skip_ws ds) = Some (ms, rest)"
  shows "parse_members (34 # cs) = Some ((k, v) # ms, rest)"
  by (subst parse_members.simps) (simp add: assms cons_fst_def)

lemma parse_elements_last:
  assumes "parse_value s = Some (v, r)" "skip_ws r = 93 # ds"
  shows "parse_elements s = Some ([v], ds)"
  by (subst parse_elements.simps) (simp add: assms)

lemma parse_elements_more:
  assumes "parse_value s = Some (v, r)" "skip_ws r = 44 # ds" "length ds < length s"
    "parse_elements (skip_ws ds) = Some (vs, rest)"
  shows "parse_elements s = Some (v # vs, rest)"
  by (subst parse_elements.simps) (simp add: assms cons_fst_def)

lemma parse_value_array:
  assumes "skip_ws cs = d # ds" "d \<noteq> 93" "parse_elements (d # ds) = Some (vs, r)"
  shows "parse_value (91 # cs) = Some (JArr vs, r)"
  by (subst parse_value.simps) (simp add: assms)

lemma parse_value_empty_array:
  assumes "skip_ws cs = 93 # ds"
  shows "parse_value (91 # cs) = Some (JArr [], ds)"
  by (subst parse_value.simps) (simp add: assms)

lemma parse_value_object:
  assumes "skip_ws cs = d # ds" "d \<noteq> 125" "parse_members (d # ds) = Some (ms, r)"
  shows "parse_value (123 # cs) = Some (JObj ms, r)"
  by (subst parse_value.simps) (simp add: assms)

lemma after_value_mtail: "after_value (mtail fs rest)"
  by (cases fs) (auto simp: after_value_def)

lemma skip_ws_mtail_Nil: "skip_ws (mtail [] rest) = 125 # rest"
  by (simp add: skip_ws_def is_json_ws_def)

lemma skip_ws_space_field:
  assumes "good_field (k, t, j)"
  shows "skip_ws (32 # t @ r) = t @ r"
  using assms by (auto simp: good_field_def skip_ws_ws ws_simps skip_ws_non_ws)

lemma parse_members_fields:
  assumes "\<forall>f \<in> set ((k, t, j) # fs). good_field f"
  shows "parse_members (34 # quote_chars (js k) @ [34, 58, 32] @ t @ mtail fs rest)
           = Some (map (\<lambda>(k, t, j). (js k, j)) ((k, t, j) # fs), rest)"
  using assms
proof (induction fs arbitrary: k t j)
  case Nil
  then have g: "good_field (k, t, j)" by simp
  have pc: "parse_chars (quote_chars (js k) @ [34, 58, 32] @ t @ mtail [] rest)
      = Some (js k, 58 # 32 # t @ mtail [] rest)"
    using parse_chars_quote [of "js k" "58 # 32 # t @ mtail [] rest"] by simp
  have pv: "parse_value (skip_ws (32 # t @ mtail [] rest)) = Some (j, mtail [] rest)"
    using g after_value_mtail [of "[]" rest]
    by (simp only: skip_ws_space_field [OF g]) (auto simp: good_field_def)
  show ?case
    using parse_members_last [OF pc _ _ pv skip_ws_mtail_Nil]
    by (simp add: skip_ws_non_ws ws_simps)
next
  case (Cons f fs)
  obtain k' t' j' where f: "f = (k', t', j')" by (cases f)
  from Cons.prems have g: "good_field (k, t, j)" by simp
  let ?m = "mtail (f # fs) rest"
  have pc: "parse_chars (quote_chars (js k) @ [34, 58, 32] @ t @ ?m) = Some (js k, 58 # 32 # t @ ?m)"
    using parse_chars_quote [of "js k" "58 # 32 # t @ ?m"] by simp
  have pv: "parse_value (skip_ws (32 # t @ ?m)) = Some (j, ?m)"
    using g after_value_mtail [of "f # fs" rest]
    by (simp only: skip_ws_space_field [OF g]) (auto simp: good_field_def)
  let ?ds = "[10, 32, 32, 32, 32, 34] @ quote_chars (js k') @ [34, 58, 32] @ t' @ mtail fs rest"
  have sk2: "skip_ws ?m = 44 # ?ds"
    by (simp add: f skip_ws_non_ws ws_simps QuoteJSONString_def)
  have sk3: "skip_ws ?ds = 34 # quote_chars (js k') @ [34, 58, 32] @ t' @ mtail fs rest"
    by (simp add: skip_ws_ws ws_simps skip_ws_non_ws)
  have ih: "parse_members (skip_ws ?ds) = Some (map (\<lambda>(k, t, j). (js k, j)) ((k', t', j') # fs), rest)"
    unfolding sk3 using Cons.IH [of k' t' j'] Cons.prems f by simp
  have len: "length ?ds < Suc (length (quote_chars (js k) @ [34, 58, 32] @ t @ ?m))"
    by (simp add: f QuoteJSONString_def)
  show ?case
    using parse_members_more [OF pc _ _ pv sk2 len ih]
    by (simp add: skip_ws_non_ws ws_simps f)
qed

lemma properties_fields: "properties r = map (\<lambda>(k, t, j). (k, t)) (fields_of r)"
  by (simp add: properties_def fields_of_def split: option.splits)

lemma to_json_fields: "to_json r = JObj (map (\<lambda>(k, t, j). (js k, j)) (fields_of r))"
  by (simp add: to_json_def fields_of_def split: option.splits)

lemma good_field_int: "good_field (k, int_string i, JNum i)"
  using int_string_hd [of i]
  by (auto simp: good_field_def parse_value_int is_json_ws_def is_digit_def)

lemma good_field_string: "good_field (k, QuoteJSONString a, JStr a)"
  by (auto simp: good_field_def parse_value_string)
     (simp add: QuoteJSONString_def is_json_ws_def)

lemma good_fields: "\<forall>f \<in> set (fields_of r). good_field f"
  by (auto simp: fields_of_def good_field_int good_field_string split: option.splits)

lemma fields_not_Nil: "\<exists>k t j fs. fields_of r = (k, t, j) # fs"
  by (simp add: fields_of_def)

lemma join_members:
  "join [44, 10] (map member_line (map (\<lambda>(k, t, j). (k, t)) ((k, t, j) # fs))) @ [10, 32, 32, 125] @ rest
     = [32, 32, 32, 32] @ QuoteJSONString (js k) @ [58, 32] @ t @ mtail fs rest"
proof (induction fs arbitrary: k t j)
  case Nil
  show ?case by (simp add: member_line_def js_def)
next
  case (Cons f fs)
  obtain k' t' j' where f: "f = (k', t', j')" by (cases f)
  show ?case
    using Cons [of k' t' j'] by (simp add: f member_line_def js_def)
qed

lemma parse_value_Data:
  "parse_value (stringify_Data r @ rest) = Some (to_json r, rest)"
proof -
  obtain k t j fs where fs: "fields_of r = (k, t, j) # fs"
    using fields_not_Nil by blast
  have g: "\<forall>f \<in> set ((k, t, j) # fs). good_field f"
    using good_fields [of r] by (simp add: fs)
  have shape: "stringify_Data r @ rest
      = 123 # [10, 32, 32, 32, 32, 34] @ quote_chars (js k) @ [34, 58, 32] @ t @ mtail fs rest"
    using join_members [of k t j fs rest]
    by (simp add: stringify_Data_def properties_fields fs js_def QuoteJSONString_def)
  have sk: "skip_ws ([10, 32, 32, 32, 32, 34] @ quote_chars (js k) @ [34, 58, 32] @ t @ mtail fs rest)
      = 34 # quote_chars (js k) @ [34, 58, 32] @ t @ mtail fs rest"
    by (simp add: skip_ws_ws skip_ws_non_ws ws_simps)
  show ?thesis
    unfolding shape
    using parse_value_object [OF sk _ parse_members_fields [OF g, of rest]]
    by (simp add: to_json_fields fs)
qed

lemma join_elements:
  "join [44, 10] (map (\<lambda>r. [32, 32] @ stringify_Data r) (r # rs)) @ [10, 93]
     = [32, 32] @ stringify_Data r @ etail rs"
  by (induction rs arbitrary: r) simp_all

lemma stringify_Data_hd: "\<exists>cs. stringify_Data r = 123 # cs"
  by (simp add: stringify_Data_def js_def)

lemma parse_elements_Data:
  "parse_elements (stringify_Data r @ etail rs @ rest) = Some (map to_json (r # rs), rest)"
proof (induction rs arbitrary: r)
  case Nil
  have sk: "skip_ws (etail [] @ rest) = 93 # rest"
    by (simp add: skip_ws_ws skip_ws_non_ws ws_simps)
  show ?case
    using parse_elements_last [OF parse_value_Data sk, of r] by simp
next
  case (Cons r' rs)
  let ?ds = "[10, 32, 32] @ stringify_Data r' @ etail rs @ rest"
  have sk: "skip_ws (etail (r' # rs) @ rest) = 44 # ?ds"
    by (simp add: skip_ws_non_ws ws_simps)
  obtain cs where cs: "stringify_Data r' = 123 # cs"
    using stringify_Data_hd by blast
  have sk2: "skip_ws ?ds = stringify_Data r' @ etail rs @ rest"
    by (simp add: cs skip_ws_ws skip_ws_non_ws ws_simps)
  have len: "length ?ds < length (stringify_Data r @ etail (r' # rs) @ rest)"
    by simp
  have ih: "parse_elements (skip_ws ?ds) = Some (map to_json (r' # rs), rest)"
    unfolding sk2 by (rule Cons.IH)
  show ?case
    using parse_elements_more [OF parse_value_Data sk len ih] by simp
qed

lemma skip_ws_stringify: "skip_ws (JSON_stringify data @ rest) = JSON_stringify data @ rest"
  by (simp add: JSON_stringify_def js_def skip_ws_non_ws is_json_ws_def)

lemma parse_value_stringify:
  "parse_value (JSON_stringify data @ rest) = Some (JArr (map to_json data), rest)"
proof (cases data)
  case Nil
  have "parse_value (91 # 93 # rest) = Some (JArr [], rest)"
    by (rule parse_value_empty_array) (simp add: skip_ws_non_ws ws_simps)
  then show ?thesis
    by (simp add: Nil JSON_stringify_def js_def)
next
  case (Cons r rs)
  obtain cs where cs: "stringify_Data r = 123 # cs"
    using stringify_Data_hd by blast
  have shape: "JSON_stringify data @ rest
      = 91 # [10, 32, 32] @ stringify_Data r @ etail rs @ rest"
    using join_elements [of r rs] by (simp add: Cons JSON_stringify_def js_def)
  have sk: "skip_ws ([10, 32, 32] @ stringify_Data r @ etail rs @ rest) = 123 # cs @ etail rs @ rest"
    by (simp add: cs skip_ws_ws skip_ws_non_ws ws_simps)
  have pe: "parse_elements (123 # cs @ etail rs @ rest) = Some (map to_json data, rest)"
    using parse_elements_Data [of r rs rest] by (simp add: cs Cons)
  show ?thesis
    unfolding shape by (rule parse_value_array [OF sk _ pe]) simp
qed

lemma JSON_parse_stringify:
  "JSON_parse (JSON_stringify data) = Some (JArr (map to_json data))"
  using parse_value_stringify [of data "[]"] skip_ws_stringify [of data "[]"]
  by (simp add: JSON_parse_def skip_ws_def)

lemma JSON_parse_trailing:
  "skip_ws rest \<noteq> [] \<Longrightarrow> JSON_parse (JSON_stringify data @ rest) = None"
  by (simp add: JSON_parse_def skip_ws_stringify parse_value_stringify)

lemma js_keys_distinct:
  "js ''id'' \<noteq> js ''name''" "js ''id'' \<noteq> js ''description''" "js ''name'' \<noteq> js ''description''"
  by (simp_all add: js_def)

lemma as_Data_to_json: "as_Data (to_json r) = Some r"
proof -
  have n: "num_field ''id'' (map (\<lambda>(k, t, j). (js k, j)) (fields_of r)) = id' r"
    by (simp add: num_field_def fields_of_def)
  have a: "str_field ''name'' (map (\<lambda>(k, t, j). (js k, j)) (fields_of r)) = name r"
    using js_keys_distinct
    by (auto simp: str_field_def fields_of_def split: option.splits)
  have b: "str_field ''description'' (map (\<lambda>(k, t, j). (js k, j)) (fields_of r)) = description r"
    using js_keys_distinct
    by (auto simp: str_field_def fields_of_def split: option.splits)
  have r: "\<lparr>id' = id' r, name = name r, description = description r\<rparr> = r"
    by simp
  show ?thesis
    unfolding as_Data_def to_json_fields json.case Let_def n a b r by simp
qed

lemma as_records_to_json: "as_records (JArr (map to_json data)) = Some data"
  by (induction data) (simp_all add: as_records_def as_Data_to_json)

section \<open>Properties of the store and of the handler\<close>

lemma dataFilePath_inj: "dataFilePath t = dataFilePath t' \<longleftrightarrow> t = t'"
  by (simp add: dataFilePath_def)

lemma saveData_flags [simp]:
  "read_denied (saveData fs data t) = read_denied fs"
  "write_denied (saveData fs data t) = write_denied fs"
  by (simp_all add: saveData_def writeFile_def)

lemma saveData_files:
  "files (saveData fs data t) =
     (if write_denied fs (dataFilePath t) then files fs
      else (files fs)(dataFilePath t \<mapsto> JSON_stringify data))"
  by (simp add: saveData_def writeFile_def)

lemma saveData_denied: "write_denied fs (dataFilePath t) \<Longrightarrow> saveData fs data t = fs"
  by (simp add: saveData_def writeFile_def)

lemma loadData_saved:
  assumes "\<not> read_denied fs (dataFilePath t)" "files fs (dataFilePath t) = Some (JSON_stringify data)"
  shows "loadData fs t = JArr (map to_json data)"
  using assms by (simp add: loadData_def readFile_def JSON_parse_stringify)

lemma loadData_saveData:
  assumes "\<not> write_denied fs (dataFilePath t)" "\<not> read_denied fs (dataFilePath t)"
  shows "loadData (saveData fs data t) t = JArr (map to_json data)"
  using assms by (intro loadData_saved) (simp_all add: saveData_files)

lemma loadData_other:
  assumes "t' \<noteq> t"
  shows "loadData (saveData fs data t) t' = loadData fs t'"
  using assms by (simp add: loadData_def readFile_def saveData_files dataFilePath_inj)

lemma records_after_save:
  assumes "\<not> write_denied fs (dataFilePath t)" "\<not> read_denied fs (dataFilePath t)"
  shows "as_records (loadData (saveData fs data t) t) = Some data"
  by (simp add: loadData_saveData [OF assms] as_records_to_json)

text \<open>
  Claim C7. Saving a sequence of records \<open>R\<close> to a table and loading the table again
  returns \<open>R\<close>, for every table name and every \<open>R\<close>: \<^verbatim>\<open>JSON.parse\<close> inverts
  \<^verbatim>\<open>JSON.stringify\<close> on records, and both functions use the same path. The save is the
  write of the file and the load its read: the statement is for a file system that refuses
  neither (\<open>saveData\<close> swallows a refused write, see claim C3).
\<close>

theorem save_load_round_trip:
  assumes "\<not> write_denied fs (dataFilePath table)" "\<not> read_denied fs (dataFilePath table)"
  shows "as_records (loadData (saveData fs R table) table) = Some R"
  using assms by (rule records_after_save)

theorem save_load_round_trip_witness:
  "as_records (loadData (saveData no_files
       [\<lparr>id' = 1, name = Some (js ''Fireball''), description = Some (js ''Deals damage'')\<rparr>,
        \<lparr>id' = 2, name = None, description = Some [34, 92, 10]\<rparr>] (js ''spells'')) (js ''spells''))
     = Some [\<lparr>id' = 1, name = Some (js ''Fireball''), description = Some (js ''Deals damage'')\<rparr>,
             \<lparr>id' = 2, name = None, description = Some [34, 92, 10]\<rparr>]"
  by (rule save_load_round_trip) (simp_all add: no_files_def)

lemma newId_Nil: "newId [] = 1"
  by (simp add: newId_def)

lemma id_newData: "id' (newData data d) = newId data"
  by (simp add: newData_def)

lemma Max_ids_bound:
  assumes "data \<noteq> []" "\<forall>r\<in>set data. P (id' r)"
  shows "P (Max (id' ` set data))"
proof -
  have "Max (id' ` set data) \<in> id' ` set data"
    using assms(1) by (intro Max_in) simp_all
  with assms(2) show ?thesis by auto
qed

lemma newId_exact:
  assumes "\<forall>r\<in>set data. \<bar>id' r\<bar> < 2 ^ 53"
  shows "newId data = (if data = [] then 1 else Max (id' ` set data) + 1)"
proof (cases "data = []")
  case True
  then show ?thesis by (simp add: newId_Nil)
next
  case False
  have "\<bar>Max (id' ` set data)\<bar> < 2 ^ 53"
    by (rule Max_ids_bound [where P = "\<lambda>i. \<bar>i\<bar> < 2 ^ 53", OF False assms])
  then have "\<bar>Max (id' ` set data) + 1\<bar> \<le> 2 ^ 53" by linarith
  then show ?thesis using False by (simp add: newId_def to_double_exact)
qed

lemma execute_INSERT:
  assumes "as_records (loadData fs t) = Some data"
  shows "execute fs (INSERT t d) =
           Some (saveData fs (data @ [newData data d]) t, Success (newData data d))"
  using assms by (simp add: execute_def Let_def)

lemma execute_on_INSERT:
  assumes "as_records (loadData fs t) = Some data" "length data \<le> args"
  shows "execute_on args fs (INSERT t d) =
           Some (saveData fs (data @ [newData data d]) t, Success (newData data d))"
  using assms by (simp add: execute_on_def execute_INSERT)

lemma execute_on_refused:
  assumes "as_records (loadData fs t) = Some data" "args < length data"
  shows "execute_on args fs (INSERT t d) = Some (fs, Error (js ''Invalid SQL command''))"
  using assms by (simp add: execute_on_def)

lemma upto_from: "map (\<lambda>k. 1 + int k) [0..<n] = [1..int n]"
proof (induction n)
  case 0
  show ?case by simp
next
  case (Suc n)
  have "[1..int (Suc n)] = [1..int n] @ [int n + 1]"
    using upto_rec2 [of 1 "int n + 1"] by (simp add: add.commute)
  with Suc show ?case by (simp add: add.commute)
qed

lemma insert_all_on_ids:
  assumes "as_records (loadData fs t) = Some data"
    and "\<not> read_denied fs (dataFilePath t)" "\<not> write_denied fs (dataFilePath t)"
    and "\<forall>r\<in>set data. 0 \<le> id' r \<and> id' r + int (length ds) \<le> 2 ^ 53"
    and "int (length ds) \<le> 2 ^ 53"
    and "length data + length ds \<le> Suc args"
  shows "\<exists>fs' rs. insert_all_on args fs t ds = Some (fs', map Success rs)
           \<and> as_records (loadData fs' t) = Some (data @ rs)
           \<and> map id' rs
               = map (\<lambda>k. (if data = [] then 1 else Max (id' ` set data) + 1) + int k)
                   [0..<length ds]"
  using assms
proof (induction ds arbitrary: fs data)
  case Nil
  then show ?case by simp
next
  case (Cons d ds)
  let ?nd = "newData data d"
  let ?fs1 = "saveData fs (data @ [?nd]) t"
  define n where "n = (if data = [] then 1 else Max (id' ` set data) + 1)"
  have small: "\<forall>r\<in>set data. \<bar>id' r\<bar> < 2 ^ 53"
    using Cons.prems(4) by auto
  have n: "newId data = n"
    unfolding n_def by (rule newId_exact [OF small])
  have nb: "0 \<le> n \<and> n + int (length ds) \<le> 2 ^ 53"
  proof (cases "data = []")
    case True
    with Cons.prems(5) show ?thesis by (simp add: n_def)
  next
    case False
    have "0 \<le> Max (id' ` set data) \<and> Max (id' ` set data) + int (length (d # ds)) \<le> 2 ^ 53"
      by (rule Max_ids_bound [where P = "\<lambda>i. 0 \<le> i \<and> i + int (length (d # ds)) \<le> 2 ^ 53",
            OF False Cons.prems(4)])
    with False show ?thesis by (simp add: n_def)
  qed
  have ex: "execute_on args fs (INSERT t d) = Some (?fs1, Success ?nd)"
    using Cons.prems(1,6) by (intro execute_on_INSERT) simp_all
  have l1: "as_records (loadData ?fs1 t) = Some (data @ [?nd])"
    using Cons.prems(2,3) by (simp add: records_after_save)
  have b1: "\<forall>r\<in>set (data @ [?nd]). 0 \<le> id' r \<and> id' r + int (length ds) \<le> 2 ^ 53"
    using Cons.prems(4) nb by (auto simp: id_newData n)
  have mx: "Max (id' ` set (data @ [?nd])) = n"
  proof (cases "data = []")
    case True
    with n show ?thesis by (simp add: id_newData)
  next
    case False
    have "Max (insert n (id' ` set data)) = max n (Max (id' ` set data))"
      using False by (intro Max_insert) simp_all
    with False show ?thesis by (simp add: id_newData n n_def)
  qed
  have "\<exists>fs' rs. insert_all_on args ?fs1 t ds = Some (fs', map Success rs)
           \<and> as_records (loadData fs' t) = Some ((data @ [?nd]) @ rs)
           \<and> map id' rs
               = map (\<lambda>k. (if data @ [?nd] = [] then 1
                            else Max (id' ` set (data @ [?nd])) + 1) + int k) [0..<length ds]"
  proof (rule Cons.IH [OF l1 _ _ b1])
    show "\<not> read_denied ?fs1 (dataFilePath t)" using Cons.prems(2) by simp
    show "\<not> write_denied ?fs1 (dataFilePath t)" using Cons.prems(3) by simp
    show "int (length ds) \<le> 2 ^ 53" using Cons.prems(5) by simp
    show "length (data @ [?nd]) + length ds \<le> Suc args" using Cons.prems(6) by simp
  qed
  then obtain fs' rs where rs: "insert_all_on args ?fs1 t ds = Some (fs', map Success rs)"
    "as_records (loadData fs' t) = Some ((data @ [?nd]) @ rs)"
    "map id' rs = map (\<lambda>k. n + 1 + int k) [0..<length ds]"
    unfolding mx by auto
  have "map (\<lambda>k. n + int k) [0..<Suc (length ds)]
        = n # map (\<lambda>k. n + 1 + int k) [0..<length ds]"
    by (simp add: upt_conv_Cons map_Suc_upt [symmetric] del: upt_Suc)
  then have ids: "map id' (?nd # rs) = map (\<lambda>k. n + int k) [0..<length (d # ds)]"
    by (simp add: rs(3) id_newData n del: upt_Suc)
  have "insert_all_on args fs t (d # ds) = Some (fs', map Success (?nd # rs))"
    by (simp add: ex rs(1))
  moreover have "as_records (loadData fs' t) = Some (data @ (?nd # rs))"
    using rs(2) by simp
  ultimately show ?case using ids unfolding n_def by blast
qed

text \<open>
  Claim C1, as stated, fails. The new id is a double: next to the id \<open>2^53\<close> it is
  \<open>2^53\<close> again, not \<open>2^53 + 1\<close>, and the table holds the id twice.
\<close>

theorem insert_repeats_greatest_id:
  "as_records (loadData last_exact_disk (js ''spells'')) = Some [last_exact]
   \<and> id' last_exact = 9007199254740992
   \<and> execute last_exact_disk (INSERT (js ''spells'') [js ''name'' \<mapsto> js ''Frost''])
       = Some (saveData last_exact_disk
                 [last_exact,
                  \<lparr>id' = 9007199254740992, name = Some (js ''Frost''), description = None\<rparr>] (js ''spells''),
               Success \<lparr>id' = 9007199254740992, name = Some (js ''Frost''), description = None\<rparr>)
   \<and> as_records (loadData (saveData last_exact_disk
                 [last_exact,
                  \<lparr>id' = 9007199254740992, name = Some (js ''Frost''), description = None\<rparr>] (js ''spells''))
          (js ''spells''))
       = Some [last_exact, \<lparr>id' = 9007199254740992, name = Some (js ''Frost''), description = None\<rparr>]"
proof -
  have l: "as_records (loadData last_exact_disk (js ''spells'')) = Some [last_exact]"
    unfolding last_exact_disk_def by (rule records_after_save) (simp_all add: no_files_def)
  have "to_double (9007199254740992 + 1) = 9007199254740992"
    by (simp add: to_double_def round_to_53_next)
  then have n: "newData [last_exact] [js ''name'' \<mapsto> js ''Frost'']
      = \<lparr>id' = 9007199254740992, name = Some (js ''Frost''), description = None\<rparr>"
    by (simp add: newData_def newId_def last_exact_def js_def)
  have "as_records (loadData (saveData last_exact_disk
                 [last_exact,
                  \<lparr>id' = 9007199254740992, name = Some (js ''Frost''), description = None\<rparr>] (js ''spells''))
          (js ''spells''))
       = Some [last_exact, \<lparr>id' = 9007199254740992, name = Some (js ''Frost''), description = None\<rparr>]"
    by (rule records_after_save) (simp_all add: last_exact_disk_def no_files_def)
  moreover have "id' last_exact = 9007199254740992"
    by (simp add: last_exact_def)
  ultimately show ?thesis
    using l by (simp add: execute_INSERT [OF l] n)
qed

text \<open>
  Claim C1, amended. On a table whose file can be read and written and whose ids are
  smaller than \<open>2^53\<close> in absolute value, an Insert loads the records, gives the new record
  the greatest id plus one, or 1 when there is none, appends it, saves the whole sequence
  and answers with the new record, as long as the engine accepts a call with as many
  arguments as the table has records; with more records the Insert is answered with
  \<^verbatim>\<open>Invalid SQL command\<close> and nothing is saved. So Inserts executed one after another on
  a table that is empty at first are given the ids 1, 2, 3, ... in this order, as long as
  they are at most \<open>2^53\<close> and at most one more than the arguments the engine accepts.
\<close>

theorem insert_assigns_next_id:
  assumes "as_records (loadData fs table) = Some data"
    and "\<not> read_denied fs (dataFilePath table)" "\<not> write_denied fs (dataFilePath table)"
    and "\<forall>r\<in>set data. \<bar>id' r\<bar> < 2 ^ 53"
  shows "(length data \<le> args \<longrightarrow>
            execute_on args fs (INSERT table d) =
              Some (saveData fs (data @ [newData data d]) table, Success (newData data d)))
       \<and> (args < length data \<longrightarrow>
            execute_on args fs (INSERT table d) = Some (fs, Error (js ''Invalid SQL command'')))
       \<and> id' (newData data d) = (if data = [] then 1 else Max (id' ` set data) + 1)
       \<and> as_records (loadData (saveData fs (data @ [newData data d]) table) table)
           = Some (data @ [newData data d])
       \<and> (data = [] \<and> length ds \<le> Suc args \<and> int (length ds) \<le> 2 ^ 53 \<longrightarrow>
            (\<exists>fs' rs. insert_all_on args fs table ds = Some (fs', map Success rs)
               \<and> map id' rs = [1..int (length ds)]
               \<and> as_records (loadData fs' table) = Some rs))"
proof (intro conjI impI)
  assume "length data \<le> args"
  then show "execute_on args fs (INSERT table d) =
           Some (saveData fs (data @ [newData data d]) table, Success (newData data d))"
    by (rule execute_on_INSERT [OF assms(1)])
next
  assume "args < length data"
  then show "execute_on args fs (INSERT table d) = Some (fs, Error (js ''Invalid SQL command''))"
    by (rule execute_on_refused [OF assms(1)])
next
  show "id' (newData data d) = (if data = [] then 1 else Max (id' ` set data) + 1)"
    by (simp only: id_newData newId_exact [OF assms(4)])
next
  show "as_records (loadData (saveData fs (data @ [newData data d]) table) table)
           = Some (data @ [newData data d])"
    using assms(2,3) by (simp add: records_after_save)
next
  assume a: "data = [] \<and> length ds \<le> Suc args \<and> int (length ds) \<le> 2 ^ 53"
  have "\<exists>fs' rs. insert_all_on args fs table ds = Some (fs', map Success rs)
           \<and> as_records (loadData fs' table) = Some (data @ rs)
           \<and> map id' rs
               = map (\<lambda>k. (if data = [] then 1 else Max (id' ` set data) + 1) + int k)
                   [0..<length ds]"
    using a by (intro insert_all_on_ids [OF assms(1,2,3)]) simp_all
  then show "\<exists>fs' rs. insert_all_on args fs table ds = Some (fs', map Success rs)
               \<and> map id' rs = [1..int (length ds)]
               \<and> as_records (loadData fs' table) = Some rs"
    using a by (auto simp: upto_from)
qed

theorem insert_assigns_next_id_witness:
  "execute_on 65535 no_files (INSERT (js ''spells'') [js ''name'' \<mapsto> js ''Frost''])
     = Some (saveData no_files [\<lparr>id' = 1, name = Some (js ''Frost''), description = None\<rparr>] (js ''spells''),
             Success \<lparr>id' = 1, name = Some (js ''Frost''), description = None\<rparr>)
   \<and> (\<exists>fs' rs. insert_all_on 65535 no_files (js ''spells'')
          [[js ''name'' \<mapsto> js ''Frost''], Map.empty, [js ''description'' \<mapsto> js ''Burns'']]
            = Some (fs', map Success rs)
        \<and> map id' rs = [1, 2, 3]
        \<and> as_records (loadData fs' (js ''spells'')) = Some rs)"
proof -
  have l: "as_records (loadData no_files (js ''spells'')) = Some []"
    by (simp add: loadData_def readFile_def no_files_def as_records_def)
  have h: "\<not> read_denied no_files (dataFilePath (js ''spells''))"
    "\<not> write_denied no_files (dataFilePath (js ''spells''))"
    by (simp_all add: no_files_def)
  have s: "\<forall>r\<in>set ([] :: Data list). \<bar>id' r\<bar> < 2 ^ 53"
    by simp
  have u: "[1..int (length [a, b, c])] = [1, 2, 3]" for a b c :: "jstring \<rightharpoonup> jstring"
    by (simp add: upto.simps)
  let ?d = "[js ''name'' \<mapsto> js ''Frost'']"
  let ?ds = "[[js ''name'' \<mapsto> js ''Frost''], Map.empty, [js ''description'' \<mapsto> js ''Burns'']]"
  note t = insert_assigns_next_id [OF l h s, of 65535 ?d ?ds]
  have n: "newData [] ?d = \<lparr>id' = 1, name = Some (js ''Frost''), description = None\<rparr>"
    by (simp add: newData_def newId_def js_def)
  have a: "execute_on 65535 no_files (INSERT (js ''spells'') ?d)
      = Some (saveData no_files ([] @ [newData [] ?d]) (js ''spells''), Success (newData [] ?d))"
    using t [THEN conjunct1] by (rule mp) simp
  have b: "\<exists>fs' rs. insert_all_on 65535 no_files (js ''spells'') ?ds = Some (fs', map Success rs)
        \<and> map id' rs = [1..int (length ?ds)]
        \<and> as_records (loadData fs' (js ''spells'')) = Some rs"
    using t [THEN conjunct2, THEN conjunct2, THEN conjunct2, THEN conjunct2] by (rule mp) simp
  show ?thesis
    using a b unfolding u n append_Nil by (rule conjI)
qed

lemma loadData_no_files: "loadData no_files t = JArr []"
  by (simp add: loadData_def readFile_def no_files_def)


lemma as_records_empty: "as_records (JArr []) = Some []"
  by (simp add: as_records_def)

lemma spells_disk_records: "as_records (loadData spells_disk (js ''spells'')) = Some [fireball, frost]"
  unfolding spells_disk_def by (rule records_after_save) (simp_all add: no_files_def)

lemma JSON_parse_truncated: "JSON_parse (js ''[{'') = None"
proof -
  have a: "parse_value [123] = None"
    by (subst parse_value.simps) (simp add: skip_ws_def)
  have b: "parse_elements [123] = None"
    by (subst parse_elements.simps) (simp add: a)
  have "parse_value [91, 123] = None"
    by (subst parse_value.simps) (simp add: skip_ws_def is_json_ws_def b)
  then show ?thesis
    by (simp add: JSON_parse_def js_def skip_ws_def is_json_ws_def)
qed

text \<open>
  Claim C4, as stated, fails: \<open>loadData\<close> reports a table whose file holds a truncated
  text, and a table whose file cannot be read, as empty.
\<close>

theorem corrupt_table_loads_empty:
  "files corrupt_disk (dataFilePath (js ''spells'')) = Some (js ''[{'')
   \<and> JSON_parse (js ''[{'') = None
   \<and> loadData corrupt_disk (js ''spells'') = JArr []
   \<and> files unreadable_disk (dataFilePath (js ''spells'')) = Some (JSON_stringify [fireball, frost])
   \<and> read_denied unreadable_disk (dataFilePath (js ''spells''))
   \<and> loadData unreadable_disk (js ''spells'') = JArr []"
  by (simp add: corrupt_disk_def unreadable_disk_def spells_disk_def no_files_def
        loadData_def readFile_def JSON_parse_truncated saveData_files)

text \<open>
  Claim C4, amended. \<open>loadData\<close> never fails: it returns the empty array when the file
  does not exist, when it cannot be read and when its text is not JSON, and the parsed
  value otherwise; on the text \<open>saveData\<close> wrote for \<open>R\<close> this is \<open>R\<close>.
\<close>

theorem loadData_never_fails:
  "(files fs (dataFilePath table) = None \<or> read_denied fs (dataFilePath table)
      \<or> (\<exists>text. files fs (dataFilePath table) = Some text \<and> JSON_parse text = None)
      \<longrightarrow> loadData fs table = JArr [])
   \<and> (\<not> read_denied fs (dataFilePath table) \<and> files fs (dataFilePath table) = Some text
        \<and> JSON_parse text = Some v \<longrightarrow> loadData fs table = v)
   \<and> (\<not> read_denied fs (dataFilePath table)
        \<and> files fs (dataFilePath table) = Some (JSON_stringify R)
        \<longrightarrow> as_records (loadData fs table) = Some R)"
  by (auto simp: loadData_def readFile_def JSON_parse_stringify as_records_to_json)

theorem loadData_never_fails_witness:
  "loadData no_files (js ''spells'') = JArr []
   \<and> loadData unreadable_disk (js ''spells'') = JArr []
   \<and> loadData corrupt_disk (js ''spells'') = JArr []
   \<and> loadData spells_disk (js ''spells'') = JArr (map to_json [fireball, frost])
   \<and> as_records (loadData spells_disk (js ''spells'')) = Some [fireball, frost]"
proof (intro conjI)
  show "loadData no_files (js ''spells'') = JArr []"
    using loadData_never_fails [of no_files "js ''spells''"] by (simp add: no_files_def)
  show "loadData unreadable_disk (js ''spells'') = JArr []"
    using loadData_never_fails [of unreadable_disk "js ''spells''"]
    by (simp add: unreadable_disk_def)
  show "loadData corrupt_disk (js ''spells'') = JArr []"
    using loadData_never_fails [of corrupt_disk "js ''spells''"] JSON_parse_truncated
    by (simp add: corrupt_disk_def)
  have f: "\<not> read_denied spells_disk (dataFilePath (js ''spells''))"
    "files spells_disk (dataFilePath (js ''spells'')) = Some (JSON_stringify [fireball, frost])"
    by (simp_all add: spells_disk_def saveData_files no_files_def)
  show "loadData spells_disk (js ''spells'') = JArr (map to_json [fireball, frost])"
    using loadData_never_fails [of spells_disk "js ''spells''" "JSON_stringify [fireball, frost]"
        "JArr (map to_json [fireball, frost])"] f JSON_parse_stringify [of "[fireball, frost]"]
    by simp
  show "as_records (loadData spells_disk (js ''spells'')) = Some [fireball, frost]"
    using loadData_never_fails [of spells_disk "js ''spells''" _ _ "[fireball, frost]"] f
    by simp
qed

lemmas parser_eval =
  sqlParser_def fill_data_def regex_eval





lemma find_id:
  "(case find (\<lambda>s. id' s = k) data of
      Some datum \<Rightarrow> datum \<in> set data \<and> id' datum = k
    | None \<Rightarrow> k \<notin> id' ` set data)"
  by (induction data) (auto split: option.splits)

text \<open>
  Claim C6. A select by id loads the table and answers with exactly one record of the
  table, whose id is the requested one, when the table has such a record, and with
  \<^verbatim>\<open>Data not found\<close> otherwise; it changes no file.
\<close>

theorem select_by_id:
  assumes "as_records (loadData fs table) = Some data"
  shows "\<exists>resp. execute fs (SELECT table (Some k)) = Some (fs, resp)
           \<and> (if k \<in> id' ` set data
               then \<exists>r. resp = Rows [r] \<and> r \<in> set data \<and> id' r = k
               else resp = Error (js ''Data not found''))"
  using assms find_id [of k data]
  by (auto simp: execute_def split: option.splits)

theorem select_by_id_witness:
  "execute spells_disk (SELECT (js ''spells'') (Some 2)) = Some (spells_disk, Rows [frost])
   \<and> execute spells_disk (SELECT (js ''spells'') (Some 99))
       = Some (spells_disk, Error (js ''Data not found''))"
proof (intro conjI)
  from select_by_id [OF spells_disk_records, of 2]
  show "execute spells_disk (SELECT (js ''spells'') (Some 2)) = Some (spells_disk, Rows [frost])"
    by (auto simp: fireball_def frost_def)
  from select_by_id [OF spells_disk_records, of 99]
  show "execute spells_disk (SELECT (js ''spells'') (Some 99))
       = Some (spells_disk, Error (js ''Data not found''))"
    by (auto simp: fireball_def frost_def)
qed

lemma execute_SELECT_fs:
  "execute fs (SELECT table wh) = Some (fs', resp) \<Longrightarrow> fs' = fs"
  by (auto simp: execute_def split: option.splits)

lemma files_saveData_other:
  "p \<noteq> dataFilePath t \<Longrightarrow> files (saveData fs data t) p = files fs p"
  by (simp add: saveData_files)

lemma sqlParser_table_word:
  assumes "sqlParser s = Inr c"
  shows "word_token (case c of SELECT t w \<Rightarrow> t | INSERT t d \<Rightarrow> t)"
proof (cases "selectAllRegex (trim s)")
  case (Some t)
  then have "shape_select_all (trim s) t" by (simp add: selectAllRegex_iff)
  with assms Some show ?thesis
    by (auto simp: sqlParser_def shape_select_all_def)
next
  case n1: None
  show ?thesis
  proof (cases "selectWhereRegex (trim s)")
    case (Some p)
    obtain t d where p: "p = (t, d)" by (cases p)
    with Some have "shape_select_where (trim s) t d" by (simp add: selectWhereRegex_iff)
    with assms n1 Some p show ?thesis
      by (auto simp: sqlParser_def shape_select_where_def)
  next
    case n2: None
    show ?thesis
    proof (cases "insertRegex (trim s)")
      case None
      with assms n1 n2 show ?thesis by (simp add: sqlParser_def)
    next
      case (Some p)
      obtain t cs vs where p: "p = (t, cs, vs)" by (cases p)
      with Some have "shape_insert (trim s) t cs vs" by (simp add: insertRegex_iff)
      with assms n1 n2 Some p show ?thesis
        by (auto simp: sqlParser_def shape_insert_def Let_def split: if_splits)
    qed
  qed
qed

lemma durable_readable:
  assumes "\<not> read_denied fs (dataFilePath t)" "durable_records fs t = Some data"
  shows "as_records (loadData fs t) = Some data"
  using assms
  by (auto simp: durable_records_def loadData_def readFile_def as_records_def
        split: option.splits)

lemma durable_saveData:
  "durable_records (saveData fs data t) t
     = (if write_denied fs (dataFilePath t) then durable_records fs t else Some data)"
  by (simp add: durable_records_def saveData_files JSON_parse_stringify as_records_to_json)

lemma durable_other:
  "t' \<noteq> t \<Longrightarrow> durable_records (saveData fs data t) t' = durable_records fs t'"
  by (simp add: durable_records_def saveData_files dataFilePath_inj)

lemma loadData_unusable:
  assumes "read_denied fs (dataFilePath t)
     \<or> (\<exists>text. files fs (dataFilePath t) = Some text \<and> JSON_parse text = None)"
  shows "loadData fs t = JArr []"
  using assms by (auto simp: loadData_def readFile_def)

lemma drop_table_parsed: "sqlParser (trim (js ''DROP TABLE spells'')) = Inl unsupported_format"
  by (simp add: parser_eval)

lemma select_all_parsed:
  "sqlParser (trim (js ''SELECT * FROM spells'')) = Inr (SELECT (js ''spells'') None)"
  by (simp add: parser_eval)

lemma insert_shield_parsed:
  "sqlParser (trim (js ''INSERT INTO spells (name) VALUES (Shield)''))
     = Inr (INSERT (js ''spells'') [js ''name'' \<mapsto> js ''Shield''])"
  by (simp add: parser_eval)

lemma newData_shield:
  "newData [] [js ''name'' \<mapsto> js ''Shield''] = first_shield"
  "newData [fireball, frost] [js ''name'' \<mapsto> js ''Shield''] = third_shield"
  by (simp_all add: newData_def newId_def to_double_exact first_shield_def third_shield_def
        fireball_def frost_def js_def)

lemma spells_disk_durable: "durable_records spells_disk (js ''spells'') = Some [fireball, frost]"
  by (simp add: spells_disk_def durable_saveData no_files_def)

text \<open>
  Claim C8, as stated, fails. The file of the table holds two records and cannot be read:
  the Insert loads no record, and writes the new record alone, with the id 1, over the
  two records the file held.
\<close>

theorem insert_overwrites_unreadable_table:
  "durable_records unreadable_disk (js ''spells'') = Some [fireball, frost]
   \<and> on_data unreadable_disk (js ''INSERT INTO spells (name) VALUES (Shield)'')
       = Some (saveData unreadable_disk [first_shield] (js ''spells''), Success first_shield)
   \<and> durable_records (saveData unreadable_disk [first_shield] (js ''spells'')) (js ''spells'')
       = Some [first_shield]"
proof (intro conjI)
  show "durable_records unreadable_disk (js ''spells'') = Some [fireball, frost]"
    using spells_disk_durable by (simp add: unreadable_disk_def durable_records_def)
  have "loadData unreadable_disk (js ''spells'') = JArr []"
    by (rule loadData_unusable) (simp add: unreadable_disk_def)
  then have l: "as_records (loadData unreadable_disk (js ''spells'')) = Some []"
    by (simp add: as_records_empty)
  show "on_data unreadable_disk (js ''INSERT INTO spells (name) VALUES (Shield)'')
       = Some (saveData unreadable_disk [first_shield] (js ''spells''), Success first_shield)"
    by (simp add: on_data_def insert_shield_parsed execute_INSERT [OF l] newData_shield)
  show "durable_records (saveData unreadable_disk [first_shield] (js ''spells'')) (js ''spells'')
       = Some [first_shield]"
    by (simp add: durable_saveData unreadable_disk_def spells_disk_def no_files_def)
qed

text \<open>
  Claim C8, amended, for a handler that runs without interruption (claim C2 is about
  handlers that run at the same time). A chunk that does not parse and a select leave the
  file system as it is. An Insert changes the file of no other table (the names of tables
  are words). When the file of its table can be read and holds records with ids smaller
  than \<open>2^53\<close> in absolute value, or does not exist, these records are the first records
  of the file afterwards, unchanged: followed by the new record when the engine accepts
  the call and the write is not refused, and by nothing otherwise. When the file cannot
  be read, or holds a text that is not JSON, and the write is not refused, the file holds
  the new record alone afterwards, with the id 1: what it held is gone.
\<close>

theorem only_insert_writes:
  "(sqlParser (trim chunk) = Inl e \<longrightarrow>
      on_data_on args fs chunk = Some (fs, Error (js ''Invalid SQL command'')))
   \<and> (sqlParser (trim chunk) = Inr (SELECT table wh) \<and> on_data_on args fs chunk = Some (fs', resp)
        \<longrightarrow> fs' = fs)
   \<and> (sqlParser (trim chunk) = Inr (INSERT table d) \<and> on_data_on args fs chunk = Some (fs', resp)
        \<longrightarrow>
        word_token table
        \<and> (\<forall>t. word_token t \<and> t \<noteq> table \<longrightarrow>
              files fs' (dataFilePath t) = files fs (dataFilePath t)
              \<and> durable_records fs' t = durable_records fs t))
   \<and> (sqlParser (trim chunk) = Inr (INSERT table d)
        \<and> durable_records fs table = Some data \<and> \<not> read_denied fs (dataFilePath table)
        \<and> (\<forall>r\<in>set data. \<bar>id' r\<bar> < 2 ^ 53) \<longrightarrow>
        (\<exists>fs1 resp1. on_data_on args fs chunk = Some (fs1, resp1)
           \<and> (if args < length data then resp1 = Error (js ''Invalid SQL command'') \<and> fs1 = fs
               else \<exists>nd. resp1 = Success nd
                 \<and> durable_records fs1 table
                     = Some (if write_denied fs (dataFilePath table) then data else data @ [nd]))
           \<and> (\<exists>rs. durable_records fs1 table = Some (data @ rs))))
   \<and> (sqlParser (trim chunk) = Inr (INSERT table d)
        \<and> (read_denied fs (dataFilePath table)
             \<or> (\<exists>text. files fs (dataFilePath table) = Some text \<and> JSON_parse text = None))
        \<and> \<not> write_denied fs (dataFilePath table) \<longrightarrow>
        (\<exists>fs1 nd. on_data_on args fs chunk = Some (fs1, Success nd)
           \<and> id' nd = 1 \<and> durable_records fs1 table = Some [nd]))"
proof (intro conjI impI)
  assume "sqlParser (trim chunk) = Inl e"
  then show "on_data_on args fs chunk = Some (fs, Error (js ''Invalid SQL command''))"
    by (simp add: on_data_on_def)
next
  assume "sqlParser (trim chunk) = Inr (SELECT table wh) \<and> on_data_on args fs chunk = Some (fs', resp)"
  then show "fs' = fs"
    by (auto simp: on_data_on_def execute_on_def dest: execute_SELECT_fs)
next
  assume a: "sqlParser (trim chunk) = Inr (INSERT table d) \<and> on_data_on args fs chunk = Some (fs', resp)"
  then show "word_token table"
    using sqlParser_table_word [of "trim chunk" "INSERT table d"] by simp
next
  assume a: "sqlParser (trim chunk) = Inr (INSERT table d) \<and> on_data_on args fs chunk = Some (fs', resp)"
  then have "fs' = fs \<or> (\<exists>data0. fs' = saveData fs data0 table)"
    by (auto simp: on_data_on_def execute_on_def execute_def Let_def split: option.splits if_splits)
  then show "\<forall>t. word_token t \<and> t \<noteq> table \<longrightarrow>
              files fs' (dataFilePath t) = files fs (dataFilePath t)
              \<and> durable_records fs' t = durable_records fs t"
    by (auto simp: files_saveData_other durable_other dataFilePath_inj)
next
  assume a: "sqlParser (trim chunk) = Inr (INSERT table d)
        \<and> durable_records fs table = Some data \<and> \<not> read_denied fs (dataFilePath table)
        \<and> (\<forall>r\<in>set data. \<bar>id' r\<bar> < 2 ^ 53)"
  then have l: "as_records (loadData fs table) = Some data"
    by (simp add: durable_readable)
  let ?nd = "newData data d"
  show "\<exists>fs1 resp1. on_data_on args fs chunk = Some (fs1, resp1)
           \<and> (if args < length data then resp1 = Error (js ''Invalid SQL command'') \<and> fs1 = fs
               else \<exists>nd. resp1 = Success nd
                 \<and> durable_records fs1 table
                     = Some (if write_denied fs (dataFilePath table) then data else data @ [nd]))
           \<and> (\<exists>rs. durable_records fs1 table = Some (data @ rs))"
  proof (cases "args < length data")
    case True
    then have "on_data_on args fs chunk = Some (fs, Error (js ''Invalid SQL command''))"
      using a by (simp add: on_data_on_def execute_on_refused [OF l])
    then show ?thesis
      using a True by simp
  next
    case False
    then have "length data \<le> args" by simp
    then have o: "on_data_on args fs chunk = Some (saveData fs (data @ [?nd]) table, Success ?nd)"
      using a by (simp add: on_data_on_def execute_on_INSERT [OF l])
    have d: "durable_records (saveData fs (data @ [?nd]) table) table
        = Some (if write_denied fs (dataFilePath table) then data else data @ [?nd])"
      using a by (simp add: durable_saveData)
    show ?thesis
      using False by (simp add: o d)
  qed
next
  assume a: "sqlParser (trim chunk) = Inr (INSERT table d)
        \<and> (read_denied fs (dataFilePath table)
             \<or> (\<exists>text. files fs (dataFilePath table) = Some text \<and> JSON_parse text = None))
        \<and> \<not> write_denied fs (dataFilePath table)"
  then have "loadData fs table = JArr []"
    by (intro loadData_unusable) simp
  then have l: "as_records (loadData fs table) = Some []"
    by (simp add: as_records_empty)
  let ?nd = "newData [] d"
  have "on_data_on args fs chunk = Some (saveData fs [?nd] table, Success ?nd)"
    using a execute_on_INSERT [OF l, of args d] by (simp add: on_data_on_def)
  moreover have "durable_records (saveData fs [?nd] table) table = Some [?nd]"
    using a by (simp add: durable_saveData)
  moreover have "id' ?nd = 1"
    by (simp add: id_newData newId_Nil)
  ultimately show "\<exists>fs1 nd. on_data_on args fs chunk = Some (fs1, Success nd)
           \<and> id' nd = 1 \<and> durable_records fs1 table = Some [nd]"
    by blast
qed

theorem only_insert_writes_witness:
  "on_data_on 65535 spells_disk (js ''DROP TABLE spells'')
     = Some (spells_disk, Error (js ''Invalid SQL command''))
   \<and> on_data_on 65535 spells_disk (js ''SELECT * FROM spells'')
     = Some (spells_disk, Rows [fireball, frost])
   \<and> (\<exists>fs1. on_data_on 65535 spells_disk (js ''INSERT INTO spells (name) VALUES (Shield)'')
           = Some (fs1, Success third_shield)
         \<and> files fs1 (dataFilePath (js ''scrolls'')) = files spells_disk (dataFilePath (js ''scrolls''))
         \<and> durable_records fs1 (js ''spells'') = Some [fireball, frost, third_shield])
   \<and> on_data_on 1 spells_disk (js ''INSERT INTO spells (name) VALUES (Shield)'')
       = Some (spells_disk, Error (js ''Invalid SQL command''))
   \<and> (\<exists>fs1. on_data_on 65535 corrupt_disk (js ''INSERT INTO spells (name) VALUES (Shield)'')
           = Some (fs1, Success first_shield)
         \<and> durable_records fs1 (js ''spells'') = Some [first_shield])"
proof (intro conjI)
  show "on_data_on 65535 spells_disk (js ''DROP TABLE spells'')
      = Some (spells_disk, Error (js ''Invalid SQL command''))"
    using only_insert_writes [where chunk = "js ''DROP TABLE spells''" and e = unsupported_format
        and fs = spells_disk and args = 65535] drop_table_parsed by simp
next
  obtain fs' where o: "on_data_on 65535 spells_disk (js ''SELECT * FROM spells'')
      = Some (fs', Rows [fireball, frost])"
    by (simp add: on_data_on_def execute_on_def select_all_parsed execute_def spells_disk_records)
  with only_insert_writes [where chunk = "js ''SELECT * FROM spells''" and fs = spells_disk
      and table = "js ''spells''" and wh = None and fs' = fs' and resp = "Rows [fireball, frost]"
      and args = 65535]
    select_all_parsed
  have "fs' = spells_disk" by simp
  with o show "on_data_on 65535 spells_disk (js ''SELECT * FROM spells'')
      = Some (spells_disk, Rows [fireball, frost])"
    by simp
next
  let ?chunk = "js ''INSERT INTO spells (name) VALUES (Shield)''"
  let ?d = "[js ''name'' \<mapsto> js ''Shield'']"
  let ?fs1 = "saveData spells_disk [fireball, frost, third_shield] (js ''spells'')"
  have p: "word_token (js ''scrolls'') \<and> js ''scrolls'' \<noteq> js ''spells''"
    by (simp add: word_token_def is_word_def js_def)
  have e: "on_data_on 65535 spells_disk ?chunk = Some (?fs1, Success third_shield)"
    using execute_on_INSERT [OF spells_disk_records, of 65535 ?d]
    by (simp add: on_data_on_def insert_shield_parsed newData_shield)
  note t = only_insert_writes [where chunk = ?chunk and fs = spells_disk and table = "js ''spells''"
      and d = ?d and fs' = ?fs1 and resp = "Success third_shield" and args = 65535]
  from t insert_shield_parsed e
  have "\<forall>t. word_token t \<and> t \<noteq> js ''spells'' \<longrightarrow>
          files ?fs1 (dataFilePath t) = files spells_disk (dataFilePath t)
          \<and> durable_records ?fs1 t = durable_records spells_disk t"
    by blast
  with p have f: "files ?fs1 (dataFilePath (js ''scrolls''))
      = files spells_disk (dataFilePath (js ''scrolls''))"
    by blast
  have w: "\<not> write_denied spells_disk (dataFilePath (js ''spells''))"
    by (simp add: spells_disk_def no_files_def)
  then have "durable_records ?fs1 (js ''spells'') = Some [fireball, frost, third_shield]"
    by (simp add: durable_saveData)
  with e f
  show "\<exists>fs1. on_data_on 65535 spells_disk ?chunk = Some (fs1, Success third_shield)
         \<and> files fs1 (dataFilePath (js ''scrolls'')) = files spells_disk (dataFilePath (js ''scrolls''))
         \<and> durable_records fs1 (js ''spells'') = Some [fireball, frost, third_shield]"
    by blast
next
  let ?chunk = "js ''INSERT INTO spells (name) VALUES (Shield)''"
  let ?d = "[js ''name'' \<mapsto> js ''Shield'']"
  have r: "\<not> read_denied spells_disk (dataFilePath (js ''spells''))"
    by (simp add: spells_disk_def no_files_def)
  have s: "\<forall>r\<in>set [fireball, frost]. \<bar>id' r\<bar> < 2 ^ 53"
    by (simp add: fireball_def frost_def)
  from only_insert_writes [where chunk = ?chunk and fs = spells_disk and table = "js ''spells''"
      and d = ?d and data = "[fireball, frost]" and args = 1]
    insert_shield_parsed spells_disk_durable r s
  have "\<exists>fs1 resp1. on_data_on 1 spells_disk ?chunk = Some (fs1, resp1)
           \<and> (if 1 < length [fireball, frost]
               then resp1 = Error (js ''Invalid SQL command'') \<and> fs1 = spells_disk
               else \<exists>nd. resp1 = Success nd
                 \<and> durable_records fs1 (js ''spells'')
                     = Some (if write_denied spells_disk (dataFilePath (js ''spells''))
                             then [fireball, frost] else [fireball, frost] @ [nd]))
           \<and> (\<exists>rs. durable_records fs1 (js ''spells'') = Some ([fireball, frost] @ rs))"
    by blast
  then show "on_data_on 1 spells_disk ?chunk = Some (spells_disk, Error (js ''Invalid SQL command''))"
    by auto
next
  let ?chunk = "js ''INSERT INTO spells (name) VALUES (Shield)''"
  let ?d = "[js ''name'' \<mapsto> js ''Shield'']"
  have c: "(read_denied corrupt_disk (dataFilePath (js ''spells''))
       \<or> (\<exists>text. files corrupt_disk (dataFilePath (js ''spells'')) = Some text
             \<and> JSON_parse text = None))
     \<and> \<not> write_denied corrupt_disk (dataFilePath (js ''spells''))"
    by (simp add: corrupt_disk_def no_files_def JSON_parse_truncated)
  have "loadData corrupt_disk (js ''spells'') = JArr []"
    by (simp add: corrupt_disk_def no_files_def loadData_def readFile_def JSON_parse_truncated)
  then have l: "as_records (loadData corrupt_disk (js ''spells'')) = Some []"
    by (simp add: as_records_empty)
  have e: "on_data_on 65535 corrupt_disk ?chunk
      = Some (saveData corrupt_disk [first_shield] (js ''spells''), Success first_shield)"
    using execute_on_INSERT [OF l, of 65535 ?d]
    by (simp add: on_data_on_def insert_shield_parsed newData_shield)
  from only_insert_writes [where chunk = ?chunk and fs = corrupt_disk and table = "js ''spells''"
      and d = ?d and args = 65535] insert_shield_parsed c
  have "\<exists>fs1 nd. on_data_on 65535 corrupt_disk ?chunk = Some (fs1, Success nd)
           \<and> id' nd = 1 \<and> durable_records fs1 (js ''spells'') = Some [nd]"
    by blast
  with e
  show "\<exists>fs1. on_data_on 65535 corrupt_disk ?chunk = Some (fs1, Success first_shield)
         \<and> durable_records fs1 (js ''spells'') = Some [first_shield]"
    by auto
qed



text \<open>
  Claim C10. The record of an Insert has the id the server computes and the values of the
  columns \<^verbatim>\<open>name\<close> and \<^verbatim>\<open>description\<close>, and nothing else: two Inserts whose columns
  \<^verbatim>\<open>name\<close> and \<^verbatim>\<open>description\<close> agree have the same effect and the same answer whatever
  other columns they name, a column \<^verbatim>\<open>id\<close> among them. When the file of the table can be
  read and written, its ids are smaller than \<open>2^53\<close> in absolute value and the engine
  accepts the call, the id is the greatest id plus one, or 1, the table holds afterwards
  the records it had and then this record, and the object the file holds for it has the
  property \<^verbatim>\<open>id\<close>, then \<^verbatim>\<open>name\<close> and \<^verbatim>\<open>description\<close> when the Insert gave them, and
  no other.
\<close>

theorem insert_ignores_other_columns:
  assumes "d (js ''name'') = d' (js ''name'')"
    and "d (js ''description'') = d' (js ''description'')"
    and "as_records (loadData fs table) = Some data"
    and "\<not> read_denied fs (dataFilePath table)" "\<not> write_denied fs (dataFilePath table)"
    and "\<forall>r\<in>set data. \<bar>id' r\<bar> < 2 ^ 53" "length data \<le> args"
  shows "execute_on args fs (INSERT table d) = execute_on args fs (INSERT table d')
       \<and> (\<exists>fs1 nd. execute_on args fs (INSERT table d) = Some (fs1, Success nd)
            \<and> nd = \<lparr>id' = (if data = [] then 1 else Max (id' ` set data) + 1),
                     name = d' (js ''name''), description = d' (js ''description'')\<rparr>
            \<and> as_records (loadData fs1 table) = Some (data @ [nd])
            \<and> files fs1 (dataFilePath table) = Some (JSON_stringify (data @ [nd]))
            \<and> loadData fs1 table
                = JArr (map to_json data
                    @ [JObj ([(js ''id'', JNum (id' nd))]
                         @ (case d' (js ''name'') of None \<Rightarrow> []
                            | Some a \<Rightarrow> [(js ''name'', JStr a)])
                         @ (case d' (js ''description'') of None \<Rightarrow> []
                            | Some b \<Rightarrow> [(js ''description'', JStr b)]))]))"
proof -
  let ?nd = "newData data d"
  let ?fs1 = "saveData fs (data @ [?nd]) table"
  have n: "newData data0 d = newData data0 d'" for data0
    using assms(1,2) by (simp add: newData_def)
  have "execute_on args fs (INSERT table d) = execute_on args fs (INSERT table d')"
    by (simp add: execute_on_def execute_def n split: option.splits)
  moreover have "execute_on args fs (INSERT table d) = Some (?fs1, Success ?nd)"
    by (rule execute_on_INSERT [OF assms(3,7)])
  moreover have "?nd = \<lparr>id' = (if data = [] then 1 else Max (id' ` set data) + 1),
                     name = d' (js ''name''), description = d' (js ''description'')\<rparr>"
    using assms(1,2) newId_exact [OF assms(6)] by (simp add: newData_def)
  moreover have "as_records (loadData ?fs1 table) = Some (data @ [?nd])"
    by (rule records_after_save [OF assms(5,4)])
  moreover have "files ?fs1 (dataFilePath table) = Some (JSON_stringify (data @ [?nd]))"
    using assms(5) by (simp add: saveData_files)
  moreover have "loadData ?fs1 table
                = JArr (map to_json data
                    @ [JObj ([(js ''id'', JNum (id' ?nd))]
                         @ (case d' (js ''name'') of None \<Rightarrow> []
                            | Some a \<Rightarrow> [(js ''name'', JStr a)])
                         @ (case d' (js ''description'') of None \<Rightarrow> []
                            | Some b \<Rightarrow> [(js ''description'', JStr b)]))])"
    using assms(1,2) by (simp add: loadData_saveData [OF assms(5,4)] to_json_def newData_def)
  ultimately show ?thesis by blast
qed

theorem insert_ignores_other_columns_witness:
  "execute_on 65535 spells_disk (INSERT (js ''spells'')
       [js ''id'' \<mapsto> js ''99'', js ''name'' \<mapsto> js ''Shield'', js ''power'' \<mapsto> js ''7''])
     = execute_on 65535 spells_disk (INSERT (js ''spells'') [js ''name'' \<mapsto> js ''Shield''])
   \<and> (\<exists>fs1. execute_on 65535 spells_disk (INSERT (js ''spells'')
            [js ''id'' \<mapsto> js ''99'', js ''name'' \<mapsto> js ''Shield'', js ''power'' \<mapsto> js ''7''])
          = Some (fs1, Success \<lparr>id' = 3, name = Some (js ''Shield''), description = None\<rparr>)
        \<and> as_records (loadData fs1 (js ''spells''))
            = Some [fireball, frost, \<lparr>id' = 3, name = Some (js ''Shield''), description = None\<rparr>]
        \<and> loadData fs1 (js ''spells'')
            = JArr [to_json fireball, to_json frost,
                    JObj [(js ''id'', JNum 3), (js ''name'', JStr (js ''Shield''))]])"
proof -
  let ?d = "[js ''id'' \<mapsto> js ''99'', js ''name'' \<mapsto> js ''Shield'', js ''power'' \<mapsto> js ''7'']"
  let ?d' = "[js ''name'' \<mapsto> js ''Shield'']"
  have k: "?d (js ''name'') = ?d' (js ''name'')" "?d (js ''description'') = ?d' (js ''description'')"
    by (simp_all add: js_def)
  have h: "\<not> read_denied spells_disk (dataFilePath (js ''spells''))"
    "\<not> write_denied spells_disk (dataFilePath (js ''spells''))"
    by (simp_all add: spells_disk_def no_files_def)
  have b: "\<forall>r\<in>set [fireball, frost]. \<bar>id' r\<bar> < 2 ^ 53" "length [fireball, frost] \<le> 65535"
    by (simp_all add: fireball_def frost_def)
  have i: "(if [fireball, frost] = [] then 1 else Max (id' ` set [fireball, frost]) + 1) = 3"
    by (simp add: fireball_def frost_def)
  have v: "?d' (js ''name'') = Some (js ''Shield'')" "?d' (js ''description'') = None"
    by (simp_all add: js_def)
  note t = insert_ignores_other_columns [OF k spells_disk_records h b]
  have e: "execute_on 65535 spells_disk (INSERT (js ''spells'') ?d)
      = execute_on 65535 spells_disk (INSERT (js ''spells'') ?d')"
    using t by (rule conjunct1)
  from t [THEN conjunct2] obtain fs1 nd where f:
    "execute_on 65535 spells_disk (INSERT (js ''spells'') ?d) = Some (fs1, Success nd)"
    "nd = \<lparr>id' = (if [fireball, frost] = [] then 1 else Max (id' ` set [fireball, frost]) + 1),
           name = ?d' (js ''name''), description = ?d' (js ''description'')\<rparr>"
    "as_records (loadData fs1 (js ''spells'')) = Some ([fireball, frost] @ [nd])"
    "loadData fs1 (js ''spells'')
       = JArr (map to_json [fireball, frost]
           @ [JObj ([(js ''id'', JNum (id' nd))]
                @ (case ?d' (js ''name'') of None \<Rightarrow> [] | Some a \<Rightarrow> [(js ''name'', JStr a)])
                @ (case ?d' (js ''description'') of None \<Rightarrow> []
                   | Some b \<Rightarrow> [(js ''description'', JStr b)]))])"
    by blast
  have n: "nd = \<lparr>id' = 3, name = Some (js ''Shield''), description = None\<rparr>"
    unfolding f(2) i v by (rule refl)
  have ld: "loadData fs1 (js ''spells'')
            = JArr [to_json fireball, to_json frost,
                    JObj [(js ''id'', JNum 3), (js ''name'', JStr (js ''Shield''))]]"
    unfolding f(4) v n by simp
  show ?thesis
  proof (intro conjI exI [of _ fs1])
    show "execute_on 65535 spells_disk (INSERT (js ''spells'') ?d)
        = execute_on 65535 spells_disk (INSERT (js ''spells'') ?d')"
      by (rule e)
    show "execute_on 65535 spells_disk (INSERT (js ''spells'') ?d)
        = Some (fs1, Success \<lparr>id' = 3, name = Some (js ''Shield''), description = None\<rparr>)"
      using f(1) unfolding n .
    show "as_records (loadData fs1 (js ''spells''))
        = Some [fireball, frost, \<lparr>id' = 3, name = Some (js ''Shield''), description = None\<rparr>]"
      using f(3) unfolding n by simp
    show "loadData fs1 (js ''spells'')
        = JArr [to_json fireball, to_json frost,
                JObj [(js ''id'', JNum 3), (js ''name'', JStr (js ''Shield''))]]"
      by (rule ld)
  qed
qed

lemma run_Nil: "run args [] st = st"
  by (simp add: run_def)

lemma run_Cons: "run args (i # is) st = run args is (step args i st)"
  by (simp add: run_def)

lemma run_append: "run args (xs @ ys) st = run args ys (run args xs st)"
  by (simp add: run_def)

lemma no_files_healthy:
  "\<not> read_denied no_files p" "\<not> write_denied no_files p"
  by (simp_all add: no_files_def)

lemma newData_first:
  "newData [] [js ''name'' \<mapsto> js ''Fireball''] = first_fireball"
  "newData [] [js ''name'' \<mapsto> js ''Frost''] = first_frost"
  "newData [first_fireball] [js ''name'' \<mapsto> js ''Frost''] = second_frost"
  by (simp_all add: newData_def newId_def to_double_exact first_fireball_def first_frost_def
        second_frost_def js_def)

lemma writeFile_steps:
  "writeFile fs p text =
     (case open_truncate fs p of
        Inl error \<Rightarrow> Inl error
      | Inr fs' \<Rightarrow> Inr (write_from_start fs' p text))"
  by (simp add: writeFile_def open_truncate_def write_from_start_def)

lemma step_Received:
  assumes "as_records (loadData fs t) = Some data" "length data \<le> args"
  shows "step_task args fs (Received (INSERT t d))
           = (fs, Opening t (data @ [newData data d]) (newData data d))"
  using assms by simp

lemma step_Received_refused:
  assumes "as_records (loadData fs t) = Some data" "args < length data"
  shows "step_task args fs (Received (INSERT t d)) = (fs, Done (Error (js ''Invalid SQL command'')))"
  using assms by simp

lemma step_Opening:
  assumes "\<not> write_denied fs (dataFilePath t)"
  shows "step_task args fs (Opening t data nd)
           = (fs\<lparr>files := (files fs)(dataFilePath t \<mapsto> [])\<rparr>, Writing t data nd)"
  using assms by (simp add: open_truncate_def)

lemma step_Opening_denied:
  assumes "write_denied fs (dataFilePath t)"
  shows "step_task args fs (Opening t data nd) = (fs, Done (Success nd))"
  using assms by (simp add: open_truncate_def)

lemma step_Writing:
  "step_task args (fs\<lparr>files := (files fs)(dataFilePath t \<mapsto> [])\<rparr>) (Writing t data nd)
     = (fs\<lparr>files := (files fs)(dataFilePath t \<mapsto> JSON_stringify data)\<rparr>, Done (Success nd))"
  by (simp add: write_from_start_def)

lemma saveData_written:
  "\<not> write_denied fs (dataFilePath t) \<Longrightarrow>
     saveData fs data t = fs\<lparr>files := (files fs)(dataFilePath t \<mapsto> JSON_stringify data)\<rparr>"
  by (simp add: saveData_def writeFile_def)

lemma JSON_parse_empty: "JSON_parse [] = None"
proof -
  have "parse_value [] = None"
    by (subst parse_value.simps) simp
  then show ?thesis
    by (simp add: JSON_parse_def skip_ws_def)
qed

lemma loadData_truncated:
  assumes "files fs (dataFilePath t) = Some []"
  shows "loadData fs t = JArr []"
  using assms by (simp add: loadData_def readFile_def JSON_parse_empty)

lemma torn_tail:
  "drop (length (JSON_stringify [first_frost])) (JSON_stringify [first_fireball])
     = js ''}'' @ [10] @ js '']''"
  by (simp add: JSON_stringify_def stringify_Data_def properties_def member_line_def
        first_frost_def first_fireball_def QuoteJSONString_def int_string_def nat_digits.simps
        js_def is_high_surrogate_def is_low_surrogate_def)

lemma torn_text_no_JSON:
  "JSON_parse (JSON_stringify [first_frost] @ js ''}'' @ [10] @ js '']'') = None"
  by (rule JSON_parse_trailing) (simp add: js_def skip_ws_non_ws ws_simps)

lemma two_reads:
  "run 65535 [0, 1] (no_files, two_inserts)
     = (no_files, [Opening (js ''spells'') [first_fireball] first_fireball,
                   Opening (js ''spells'') [first_frost] first_frost])"
proof -
  have l0: "as_records (loadData no_files (js ''spells'')) = Some []"
    by (simp add: loadData_no_files as_records_empty)
  show ?thesis
    by (simp add: run_Cons run_Nil step_def two_inserts_def step_Received [OF l0] newData_first
          del: step_task.simps)
qed

text \<open>
  Claim C2, as stated, fails: nothing serialises the handlers on one table. When two
  Inserts both read before either writes, both are answered with the id 1, and the table
  holds one record afterwards: the first is lost. When moreover both open the file before
  either writes, the file holds the shorter text and then the end of the longer one: no
  JSON, and the table is loaded as empty. And a select that reads between the opening of
  the file by an Insert and its write is answered with no record at all, which is neither
  the table before the Insert nor the table after it.
\<close>

theorem concurrent_inserts_collide:
  "run 65535 [0, 1, 0, 0, 1, 1] (no_files, two_inserts)
     = (saveData (saveData no_files [first_fireball] (js ''spells'')) [first_frost] (js ''spells''),
        [Done (Success first_fireball), Done (Success first_frost)])
   \<and> id' first_fireball = id' first_frost
   \<and> durable_records
        (saveData (saveData no_files [first_fireball] (js ''spells'')) [first_frost] (js ''spells''))
        (js ''spells'') = Some [first_frost]
   \<and> run 65535 [0, 1, 0, 1, 0, 1] (no_files, two_inserts)
       = (torn_disk, [Done (Success first_fireball), Done (Success first_frost)])
   \<and> durable_records torn_disk (js ''spells'') = None
   \<and> loadData torn_disk (js ''spells'') = JArr []
   \<and> durable_records spells_disk (js ''spells'') = Some [fireball, frost]
   \<and> run 65535 [0, 0, 1, 0] (spells_disk, insert_and_select)
       = (saveData spells_disk [fireball, frost, third_shield] (js ''spells''),
          [Done (Success third_shield), Done (Rows [])])"
proof (intro conjI)
  let ?t = "js ''spells''"
  let ?p = "dataFilePath ?t"
  let ?fs1 = "saveData no_files [first_fireball] ?t"
  let ?A = "Opening ?t [first_fireball] first_fireball"
  let ?B = "Opening ?t [first_frost] first_frost"
  have w1: "\<not> write_denied ?fs1 ?p"
    by (simp add: no_files_healthy)
  have c: "run 65535 [0, 0] (no_files, [?A, ?B]) = (?fs1, [Done (Success first_fireball), ?B])"
    by (simp add: run_Cons run_Nil step_def step_Opening step_Writing saveData_written
          no_files_healthy del: step_task.simps)
  have d: "run 65535 [1, 1] (?fs1, [Done (Success first_fireball), ?B])
      = (saveData ?fs1 [first_frost] ?t,
         [Done (Success first_fireball), Done (Success first_frost)])"
    by (simp add: run_Cons run_Nil step_def step_Opening [OF w1] step_Writing
          saveData_written [OF w1] del: step_task.simps)
  have "run 65535 ([0, 1] @ [0, 0] @ [1, 1]) (no_files, two_inserts)
      = (saveData ?fs1 [first_frost] ?t,
         [Done (Success first_fireball), Done (Success first_frost)])"
    by (simp only: run_append two_reads c d)
  then show "run 65535 [0, 1, 0, 0, 1, 1] (no_files, two_inserts)
     = (saveData ?fs1 [first_frost] ?t,
        [Done (Success first_fireball), Done (Success first_frost)])"
    by simp
  show "id' first_fireball = id' first_frost"
    by (simp add: first_fireball_def first_frost_def)
  show "durable_records (saveData ?fs1 [first_frost] ?t) ?t = Some [first_frost]"
    by (simp add: durable_saveData no_files_healthy)
  let ?cut0 = "no_files\<lparr>files := [?p \<mapsto> []]\<rparr>"
  let ?one = "no_files\<lparr>files := [?p \<mapsto> JSON_stringify [first_fireball]]\<rparr>"
  have o: "run 65535 [0, 1] (no_files, [?A, ?B])
      = (?cut0, [Writing ?t [first_fireball] first_fireball, Writing ?t [first_frost] first_frost])"
    by (simp add: run_Cons run_Nil step_def open_truncate_def no_files_def)
  have x: "run 65535 [0] (?cut0, [Writing ?t [first_fireball] first_fireball,
                Writing ?t [first_frost] first_frost])
      = (?one, [Done (Success first_fireball), Writing ?t [first_frost] first_frost])"
    by (simp add: run_Cons run_Nil step_def write_from_start_def no_files_def)
  have y: "run 65535 [1] (?one, [Done (Success first_fireball), Writing ?t [first_frost] first_frost])
      = (torn_disk, [Done (Success first_fireball), Done (Success first_frost)])"
    by (simp add: run_Cons run_Nil step_def write_from_start_def no_files_def torn_disk_def
          torn_tail)
  have "run 65535 ([0, 1] @ [0, 1] @ [0] @ [1]) (no_files, two_inserts)
      = (torn_disk, [Done (Success first_fireball), Done (Success first_frost)])"
    by (simp only: run_append two_reads o x y)
  then show "run 65535 [0, 1, 0, 1, 0, 1] (no_files, two_inserts)
       = (torn_disk, [Done (Success first_fireball), Done (Success first_frost)])"
    by simp
  show "durable_records torn_disk ?t = None"
    using torn_text_no_JSON by (simp add: durable_records_def torn_disk_def no_files_def)
  show "loadData torn_disk ?t = JArr []"
    using torn_text_no_JSON by (simp add: loadData_def readFile_def torn_disk_def no_files_def)
  show "durable_records spells_disk ?t = Some [fireball, frost]"
    by (rule spells_disk_durable)
  let ?cut = "spells_disk\<lparr>files := (files spells_disk)(?p \<mapsto> [])\<rparr>"
  let ?W = "Writing ?t [fireball, frost, third_shield] third_shield"
  have w: "\<not> write_denied spells_disk ?p"
    by (simp add: spells_disk_def no_files_def)
  have l2: "length [fireball, frost] \<le> 65535"
    by simp
  have e: "step 65535 0 (spells_disk, insert_and_select)
      = (spells_disk, [Opening ?t [fireball, frost, third_shield] third_shield,
                       Received (SELECT ?t None)])"
    using step_Received [OF spells_disk_records l2, of "[js ''name'' \<mapsto> js ''Shield'']"]
    by (simp add: step_def insert_and_select_def newData_shield del: step_task.simps)
  have f: "step 65535 0 (spells_disk, [Opening ?t [fireball, frost, third_shield] third_shield,
                       Received (SELECT ?t None)])
      = (?cut, [?W, Received (SELECT ?t None)])"
    by (simp add: step_def step_Opening [OF w] del: step_task.simps)
  have "loadData ?cut ?t = JArr []"
    by (rule loadData_truncated) simp
  then have "execute ?cut (SELECT ?t None) = Some (?cut, Rows [])"
    by (simp add: execute_def as_records_empty)
  then have g: "step 65535 1 (?cut, [?W, Received (SELECT ?t None)]) = (?cut, [?W, Done (Rows [])])"
    by (simp add: step_def)
  have h: "step 65535 0 (?cut, [?W, Done (Rows [])])
      = (saveData spells_disk [fireball, frost, third_shield] ?t,
         [Done (Success third_shield), Done (Rows [])])"
    by (simp add: step_def step_Writing saveData_written [OF w] del: step_task.simps)
  show "run 65535 [0, 0, 1, 0] (spells_disk, insert_and_select)
       = (saveData spells_disk [fireball, frost, third_shield] ?t,
          [Done (Success third_shield), Done (Rows [])])"
    by (simp only: run_Cons run_Nil e f g h)
qed

text \<open>
  Claim C2, amended. The read of an Insert, the opening of the file and the write are
  three steps, and a step of another handler can run between any two of them: no lock
  exists. An Insert whose three steps follow each other has the effect and the answer of
  the Insert run without interruption. Two Inserts on one table whose steps interleave
  can be given the same id, and one of the records is lost, or the file is left with a
  text that is no JSON; a load between the opening and the write of a save sees an empty
  table.
\<close>

theorem uninterrupted_insert:
  assumes "i < length ts" and "ts ! i = Received (INSERT table d)"
    and "execute_on args fs (INSERT table d) = Some (fs', resp)"
  shows "run args [i, i, i] (fs, ts) = (fs', ts[i := Done resp])"
proof -
  from assms(3) obtain data where l: "as_records (loadData fs table) = Some data"
    by (auto simp: execute_on_def split: option.splits)
  let ?nd = "newData data d"
  let ?cut = "fs\<lparr>files := (files fs)(dataFilePath table \<mapsto> [])\<rparr>"
  show ?thesis
  proof (cases "args < length data")
    case True
    with l assms(3) have r: "fs' = fs" "resp = Error (js ''Invalid SQL command'')"
      by (simp_all add: execute_on_refused)
    have a: "step args i (fs, ts) = (fs, ts[i := Done resp])"
      using assms(1,2) r
      by (simp add: step_def step_Received_refused [OF l True] del: step_task.simps)
    have c: "step args i (fs, ts[i := Done resp]) = (fs, ts[i := Done resp])"
      using assms(1) by (simp add: step_def)
    show ?thesis
      by (simp only: run_Cons run_Nil a c r(1))
  next
    case False
    then have le: "length data \<le> args" by simp
    from l assms(3) have r: "fs' = saveData fs (data @ [?nd]) table" "resp = Success ?nd"
      by (simp_all add: execute_on_INSERT [OF l le])
    have a: "step args i (fs, ts) = (fs, ts[i := Opening table (data @ [?nd]) ?nd])"
      using assms(1,2) by (simp add: step_def step_Received [OF l le] del: step_task.simps)
    show ?thesis
    proof (cases "write_denied fs (dataFilePath table)")
      case True
      have b: "step args i (fs, ts[i := Opening table (data @ [?nd]) ?nd])
          = (fs, ts[i := Done (Success ?nd)])"
        using assms(1) by (simp add: step_def step_Opening_denied [OF True] del: step_task.simps)
      have c: "step args i (fs, ts[i := Done (Success ?nd)]) = (fs, ts[i := Done (Success ?nd)])"
        using assms(1) by (simp add: step_def)
      show ?thesis
        by (simp only: run_Cons run_Nil a b c r saveData_denied [OF True])
    next
      case False
      have b: "step args i (fs, ts[i := Opening table (data @ [?nd]) ?nd])
          = (?cut, ts[i := Writing table (data @ [?nd]) ?nd])"
        using assms(1) by (simp add: step_def step_Opening [OF False] del: step_task.simps)
      have c: "step args i (?cut, ts[i := Writing table (data @ [?nd]) ?nd])
          = (saveData fs (data @ [?nd]) table, ts[i := Done (Success ?nd)])"
        using assms(1)
        by (simp add: step_def step_Writing saveData_written [OF False] del: step_task.simps)
      show ?thesis
        by (simp only: run_Cons run_Nil a b c r)
    qed
  qed
qed

theorem uninterrupted_insert_witness:
  "run 65535 [0, 0, 0, 1, 1, 1] (no_files, two_inserts)
     = (saveData (saveData no_files [first_fireball] (js ''spells''))
          [first_fireball, second_frost] (js ''spells''),
        [Done (Success first_fireball), Done (Success second_frost)])"
proof -
  let ?fs1 = "saveData no_files [first_fireball] (js ''spells'')"
  let ?fs2 = "saveData ?fs1 [first_fireball, second_frost] (js ''spells'')"
  have l0: "as_records (loadData no_files (js ''spells'')) = Some []"
    by (simp add: loadData_no_files as_records_empty)
  have e0: "execute_on 65535 no_files (INSERT (js ''spells'') [js ''name'' \<mapsto> js ''Fireball''])
      = Some (?fs1, Success first_fireball)"
    using execute_on_INSERT [OF l0, of 65535 "[js ''name'' \<mapsto> js ''Fireball'']"]
    by (simp add: newData_first)
  have l1: "as_records (loadData ?fs1 (js ''spells'')) = Some [first_fireball]"
    by (rule records_after_save) (simp_all add: no_files_healthy)
  have e1: "execute_on 65535 ?fs1 (INSERT (js ''spells'') [js ''name'' \<mapsto> js ''Frost''])
      = Some (?fs2, Success second_frost)"
    using execute_on_INSERT [OF l1, of 65535 "[js ''name'' \<mapsto> js ''Frost'']"]
    by (simp add: newData_first)
  have s0: "run 65535 [0, 0, 0] (no_files, two_inserts)
      = (?fs1, two_inserts[0 := Done (Success first_fireball)])"
    by (rule uninterrupted_insert [OF _ _ e0]) (simp_all add: two_inserts_def)
  have s1: "run 65535 [1, 1, 1] (?fs1, two_inserts[0 := Done (Success first_fireball)])
      = (?fs2, (two_inserts[0 := Done (Success first_fireball)])[1 := Done (Success second_frost)])"
    by (rule uninterrupted_insert [OF _ _ e1]) (simp_all add: two_inserts_def)
  have "run 65535 ([0, 0, 0] @ [1, 1, 1]) (no_files, two_inserts)
      = (?fs2, (two_inserts[0 := Done (Success first_fireball)])[1 := Done (Success second_frost)])"
    by (simp only: run_append s0 s1)
  then show ?thesis
    by (simp add: two_inserts_def)
qed
end
